theory Spec2Isabelle
  imports
    Main
    "HOL-Library.Word"
    "HOL-Library.Monad_Syntax"
    "HOL-Library.Log_Nat"
    "HOL-Library.Multiset"
begin

unbundle bit_operations_syntax

section \<open>Common substrate\<close>

text \<open>
  Machine types: \<open>uint32_t\<close> and \<open>ringidx_t\<close> are \<open>32 word\<close>, \<open>uint64_t\<close>,
  \<open>uintptr_t\<close> and \<open>size_t\<close> are \<open>64 word\<close>, and a C \<open>int\<close> is the \<open>int\<close> read
  off a 32-bit word by \<open>sint\<close> (the conversion \<open>(int)x\<close> of gcc and clang).

  A call that never returns has the value \<open>None\<close>; a call that stops the process
  (a failed \<open>assert\<close>, \<open>abort()\<close>) or leaves defined behaviour has a \<open>fault\<close>.
\<close>

datatype fault =
    Assert_failed string
  | Aborted string
  | Undefined_behaviour string

text \<open>
  \<open>__atomic_compare_exchange_n(ptr, &expected, desired, ...)\<close>: the result is the success
  flag, the new content of \<open>*ptr\<close> and the new content of \<open>expected\<close> (updated on
  failure). A weak exchange may also fail spuriously; inside a retry loop that only
  repeats the iteration with the same values, so the loops below use this exchange.
\<close>

definition atomic_compare_exchange :: "'v \<Rightarrow> 'v \<Rightarrow> 'v \<Rightarrow> bool \<times> 'v \<times> 'v" where
  "atomic_compare_exchange mem expected desired =
     (if mem = expected then (True, desired, expected) else (False, mem, mem))"

section \<open>Reader/writer lock (p64\_rwlock.c)\<close>

type_synonym p64_rwlock_t = "32 word"

definition RWLOCK_WRITER :: "32 word" where
  "RWLOCK_WRITER = push_bit 31 1"

definition RWLOCK_READERS :: "32 word" where
  "RWLOCK_READERS = NOT RWLOCK_WRITER"

definition p64_rwlock_init :: "p64_rwlock_t" where
  "p64_rwlock_init = 0"

subsection \<open>One caller, no other thread\<close>

text \<open>
  \<open>wait_for_no\<close> reloads the lock word until no bit of the mask is set. With no
  other thread the word never changes, so the loop either leaves at once or never.
\<close>

partial_function (option) wait_for_no :: "p64_rwlock_t \<Rightarrow> 32 word \<Rightarrow> p64_rwlock_t option" where
  "wait_for_no lock msk =
     (if lock AND msk \<noteq> 0 then wait_for_no lock msk else Some lock)"

declare wait_for_no.simps [code]

partial_function (option) p64_rwlock_acquire_rd :: "p64_rwlock_t \<Rightarrow> p64_rwlock_t option" where
  "p64_rwlock_acquire_rd lock =
     do {
       l \<leftarrow> wait_for_no lock RWLOCK_WRITER;
       let (success, lock', l') = atomic_compare_exchange lock l (l + 1) in
       if success then Some lock' else p64_rwlock_acquire_rd lock'
     }"

declare p64_rwlock_acquire_rd.simps [code]

definition p64_rwlock_release_rd :: "p64_rwlock_t \<Rightarrow> fault + p64_rwlock_t" where
  "p64_rwlock_release_rd lock =
     (let prevl = lock; lock' = lock - 1 in
      if prevl AND RWLOCK_WRITER \<noteq> 0 \<or> prevl = 0
      then Inl (Aborted ''Invalid read release of RW lock'')
      else Inr lock')"

partial_function (option) p64_rwlock_acquire_wr :: "p64_rwlock_t \<Rightarrow> p64_rwlock_t option" where
  "p64_rwlock_acquire_wr lock =
     do {
       l \<leftarrow> wait_for_no lock RWLOCK_WRITER;
       let (success, lock', l') = atomic_compare_exchange lock l (l OR RWLOCK_WRITER) in
       if success then do { _ \<leftarrow> wait_for_no lock' RWLOCK_READERS; Some lock' }
       else p64_rwlock_acquire_wr lock'
     }"

declare p64_rwlock_acquire_wr.simps [code]

definition p64_rwlock_release_wr :: "p64_rwlock_t \<Rightarrow> fault + p64_rwlock_t" where
  "p64_rwlock_release_wr lock =
     (if lock \<noteq> RWLOCK_WRITER
      then Inl (Aborted ''Invalid write release of RW lock'')
      else Inr 0)"

subsection \<open>Several threads\<close>

text \<open>
  With several threads the four calls interleave at their accesses to the lock word:
  the load of \<open>wait_for_no\<close> (the first load and every reload of its loop), the
  compare-and-exchange of the two acquires, the fetch-and-subtract of the read
  release, the load and the store of the write release. A thread is at one of the
  positions below; between a load and the exchange that follows, and between the
  fetch-and-subtract and its check, it holds the value it has read.
\<close>

datatype rwlock_position =
    Idle                       \<comment> \<open>outside every call, holding nothing\<close>
  | Rd_wait                    \<comment> \<open>\<open>acquire_rd\<close>: in \<open>wait_for_no\<close> for the writer flag\<close>
  | Rd_exchange p64_rwlock_t   \<comment> \<open>\<open>acquire_rd\<close>: \<open>l\<close> read, before the exchange\<close>
  | Reading                    \<comment> \<open>between \<open>acquire_rd\<close> and \<open>release_rd\<close>\<close>
  | Rd_check p64_rwlock_t      \<comment> \<open>\<open>release_rd\<close>: \<open>prevl\<close> fetched, before its check\<close>
  | Wr_wait                    \<comment> \<open>\<open>acquire_wr\<close>: in \<open>wait_for_no\<close> for the writer flag\<close>
  | Wr_exchange p64_rwlock_t   \<comment> \<open>\<open>acquire_wr\<close>: \<open>l\<close> read, before the exchange\<close>
  | Wr_drain                   \<comment> \<open>\<open>acquire_wr\<close>: flag set, in \<open>wait_for_no\<close> for the readers\<close>
  | Writing                    \<comment> \<open>between \<open>acquire_wr\<close> and \<open>release_wr\<close>\<close>
  | Wr_store                   \<comment> \<open>\<open>release_wr\<close>: word checked, before the store\<close>

text \<open>
  The threads are interchangeable, so a running system is the lock word and the
  multiset of the positions of its threads. After \<open>abort()\<close> the process is gone;
  what is left is the lock word.
\<close>

datatype rwlock_system = Running p64_rwlock_t "rwlock_position multiset" | Stopped p64_rwlock_t

text \<open>One thread goes from position \<open>p\<close> to position \<open>p'\<close>.\<close>

definition move :: "rwlock_position \<Rightarrow> rwlock_position \<Rightarrow> rwlock_position multiset \<Rightarrow> rwlock_position multiset" where
  "move p p' T = add_mset p' (T - {#p#})"

text \<open>
  One access of one thread. A thread whose \<open>wait_for_no\<close> reads a word with a bit of
  the mask set reads again: the system does not change, and there is no step. The
  exchange of the acquires is a weak one: beside failing when the word differs from
  \<open>l\<close>, it may fail at any time, and the loop then starts over.
\<close>

inductive rwlock_step :: "rwlock_system \<Rightarrow> rwlock_system \<Rightarrow> bool" where
  call_acquire_rd:
    "Idle \<in># T \<Longrightarrow> rwlock_step (Running lock T) (Running lock (move Idle Rd_wait T))"
| rd_wait_for_no:
    "Rd_wait \<in># T \<Longrightarrow> lock AND RWLOCK_WRITER = 0 \<Longrightarrow>
     rwlock_step (Running lock T) (Running lock (move Rd_wait (Rd_exchange lock) T))"
| rd_exchange:
    "Rd_exchange l \<in># T \<Longrightarrow> atomic_compare_exchange lock l (l + 1) = (True, lock', l') \<Longrightarrow>
     rwlock_step (Running lock T) (Running lock' (move (Rd_exchange l) Reading T))"
| rd_exchange_failed:
    "Rd_exchange l \<in># T \<Longrightarrow>
     rwlock_step (Running lock T) (Running lock (move (Rd_exchange l) Rd_wait T))"
| release_rd_fetch_sub:
    "Reading \<in># T \<Longrightarrow>
     rwlock_step (Running lock T) (Running (lock - 1) (move Reading (Rd_check lock) T))"
| release_rd_return:
    "Rd_check prevl \<in># T \<Longrightarrow> \<not> (prevl AND RWLOCK_WRITER \<noteq> 0 \<or> prevl = 0) \<Longrightarrow>
     rwlock_step (Running lock T) (Running lock (move (Rd_check prevl) Idle T))"
| release_rd_abort:
    "Rd_check prevl \<in># T \<Longrightarrow> prevl AND RWLOCK_WRITER \<noteq> 0 \<or> prevl = 0 \<Longrightarrow>
     rwlock_step (Running lock T) (Stopped lock)"
| call_acquire_wr:
    "Idle \<in># T \<Longrightarrow> rwlock_step (Running lock T) (Running lock (move Idle Wr_wait T))"
| wr_wait_for_no:
    "Wr_wait \<in># T \<Longrightarrow> lock AND RWLOCK_WRITER = 0 \<Longrightarrow>
     rwlock_step (Running lock T) (Running lock (move Wr_wait (Wr_exchange lock) T))"
| wr_exchange:
    "Wr_exchange l \<in># T \<Longrightarrow>
     atomic_compare_exchange lock l (l OR RWLOCK_WRITER) = (True, lock', l') \<Longrightarrow>
     rwlock_step (Running lock T) (Running lock' (move (Wr_exchange l) Wr_drain T))"
| wr_exchange_failed:
    "Wr_exchange l \<in># T \<Longrightarrow>
     rwlock_step (Running lock T) (Running lock (move (Wr_exchange l) Wr_wait T))"
| wr_drain:
    "Wr_drain \<in># T \<Longrightarrow> lock AND RWLOCK_READERS = 0 \<Longrightarrow>
     rwlock_step (Running lock T) (Running lock (move Wr_drain Writing T))"
| release_wr_check:
    "Writing \<in># T \<Longrightarrow> \<not> lock \<noteq> RWLOCK_WRITER \<Longrightarrow>
     rwlock_step (Running lock T) (Running lock (move Writing Wr_store T))"
| release_wr_abort:
    "Writing \<in># T \<Longrightarrow> lock \<noteq> RWLOCK_WRITER \<Longrightarrow>
     rwlock_step (Running lock T) (Stopped lock)"
| release_wr_store:
    "Wr_store \<in># T \<Longrightarrow> rwlock_step (Running lock T) (Running 0 (move Wr_store Idle T))"

text \<open>\<open>p64_rwlock_init\<close>, and \<open>n\<close> threads outside every call.\<close>

definition rwlock_initial :: "nat \<Rightarrow> rwlock_system" where
  "rwlock_initial n = Running p64_rwlock_init (replicate_mset n Idle)"

section \<open>Ring buffer (p64\_ringbuf.c)\<close>

subsection \<open>Constants and data\<close>

text \<open>
  The public flag constants \<open>P64_RINGBUF_F_*\<close> are declared in \<open>p64_ringbuf.h\<close>, which
  is not among the sources; they are a parameter of the model.
\<close>

record ringbuf_flags =
  P64_RINGBUF_F_SPENQ :: "32 word"
  P64_RINGBUF_F_MPENQ :: "32 word"
  P64_RINGBUF_F_SCDEQ :: "32 word"
  P64_RINGBUF_F_MCDEQ :: "32 word"
  P64_RINGBUF_F_NBENQ :: "32 word"
  P64_RINGBUF_F_NBDEQ :: "32 word"
  P64_RINGBUF_F_LFDEQ :: "32 word"

definition SUPPORTED_FLAGS :: "ringbuf_flags \<Rightarrow> 32 word" where
  "SUPPORTED_FLAGS F =
     P64_RINGBUF_F_SPENQ F OR P64_RINGBUF_F_MPENQ F OR
     P64_RINGBUF_F_SCDEQ F OR P64_RINGBUF_F_MCDEQ F OR
     P64_RINGBUF_F_NBENQ F OR P64_RINGBUF_F_NBDEQ F OR
     P64_RINGBUF_F_LFDEQ F"

definition FLAG_BLK :: "32 word" where "FLAG_BLK = 1"
definition FLAG_LOCKFREE :: "32 word" where "FLAG_LOCKFREE = 2"
definition FLAG_NONBLK :: "32 word" where "FLAG_NONBLK = 4"
definition FLAG_MASK :: "64 word" where "FLAG_MASK = 7"

definition PROD_FLAGS :: "64 word \<Rightarrow> 32 word" where
  "PROD_FLAGS rb = ucast (rb AND FLAG_MASK)"

definition CONS_FLAGS :: "64 word \<Rightarrow> 32 word" where
  "CONS_FLAGS rb = ucast (drop_bit 3 rb AND FLAG_MASK)"

definition RB :: "64 word \<Rightarrow> 64 word" where
  "RB rb = rb AND NOT 0x3F"

definition MAXELEMS :: "32 word" where "MAXELEMS = 0xFFFFFFFF"
definition PENDMAX :: "32 word" where "PENDMAX = 32"

record idxpair =
  cur :: "32 word"
  pend :: "32 word"

record endpoint =
  head :: idxpair
  tail :: "32 word"
  capacity :: "32 word"

text \<open>
  The slot array \<open>ring[]\<close> is the memory from the ring's base on, read and written
  by slot offset; an element is an opaque \<open>void *\<close> payload of any type \<open>'a\<close>.
\<close>

record 'a p64_ringbuf =
  prod_ep :: endpoint
  prod_mask :: "32 word"
  cons_ep :: endpoint
  cons_mask :: "32 word"
  ring :: "nat \<Rightarrow> 'a"

text \<open>The store: the ring buffers that are allocated, by address.\<close>

type_synonym 'a heap = "64 word \<rightharpoonup> 'a p64_ringbuf"

text \<open>
  \<open>report_error(module, message, value)\<close> of \<open>err_hnd.h\<close> hands a report to the
  pluggable reporter; the model appends it to the list of reports of the call.
\<close>

type_synonym report = "string \<times> string \<times> 64 word"

text \<open>
  Modelled from the spec: \<open>ROUNDUP_POW2\<close> is a macro of \<open>common.h\<close>, which is not
  among the sources; the allocated ring size is the next power of two at or above
  \<open>nelems\<close>. \<open>floorlog 2 n\<close> is the number of binary digits of \<open>n\<close>.
\<close>

definition ROUNDUP_POW2 :: "32 word \<Rightarrow> 64 word" where
  "ROUNDUP_POW2 x = (if 1 < x then 2 ^ floorlog 2 (unat x - 1) else 1)"

subsection \<open>Allocation and release of the buffer\<close>

text \<open>
  \<open>p64_malloc\<close> belongs to \<open>os_abstraction.h\<close>: the call's result is the parameter
  \<open>m\<close>, the address returned (0 when the allocation fails) with the indeterminate
  content of the fresh block. The byte count \<open>sizeof(p64_ringbuf_t) + ringsz * esize\<close>
  reaches only the allocator, so \<open>esize\<close> has no further part.
  The result is the reports made, the handle returned and the store.
\<close>

definition p64_ringbuf_alloc ::
  "ringbuf_flags \<Rightarrow> 32 word \<Rightarrow> 32 word \<Rightarrow> 64 word \<Rightarrow> 64 word \<times> 'a p64_ringbuf \<Rightarrow> 'a heap
    \<Rightarrow> report list \<times> 64 word \<times> 'a heap" where
  "p64_ringbuf_alloc F nelems flags esize m heap =
     (if nelems = 0 \<or> nelems > MAXELEMS
      then ([(''ringbuf'', ''invalid number of elements'', ucast nelems)], 0, heap)
      else
        let invalid_combo0 = P64_RINGBUF_F_SPENQ F OR P64_RINGBUF_F_NBENQ F;
            invalid_combo1 = P64_RINGBUF_F_SCDEQ F OR P64_RINGBUF_F_NBDEQ F;
            invalid_combo2 = P64_RINGBUF_F_SCDEQ F OR P64_RINGBUF_F_LFDEQ F;
            invalid_combo3 = P64_RINGBUF_F_NBDEQ F OR P64_RINGBUF_F_LFDEQ F
        in
        if flags AND NOT (SUPPORTED_FLAGS F) \<noteq> 0 \<or>
           flags AND invalid_combo0 = invalid_combo0 \<or>
           flags AND invalid_combo1 = invalid_combo1 \<or>
           flags AND invalid_combo2 = invalid_combo2 \<or>
           flags AND invalid_combo3 = invalid_combo3
        then ([(''ringbuf'', ''invalid flags'', ucast flags)], 0, heap)
        else
          let ringsz = ROUNDUP_POW2 nelems;
              (rb, fresh) = m
          in
          if rb \<noteq> 0 then
            let prod_flags =
                  (if flags AND P64_RINGBUF_F_SPENQ F \<noteq> 0 then 0
                   else if flags AND P64_RINGBUF_F_NBENQ F \<noteq> 0 then FLAG_NONBLK
                   else FLAG_BLK);
                cons_flags =
                  (if flags AND P64_RINGBUF_F_SCDEQ F \<noteq> 0 then 0
                   else if flags AND P64_RINGBUF_F_NBDEQ F \<noteq> 0 then FLAG_NONBLK
                   else FLAG_BLK);
                cons_flags = cons_flags OR
                  (if flags AND P64_RINGBUF_F_LFDEQ F \<noteq> 0 then FLAG_LOCKFREE else 0);
                obj = fresh
                  \<lparr> prod_ep := \<lparr> head = \<lparr> cur = 0, pend = 0 \<rparr>, tail = 0, capacity = nelems \<rparr>,
                    prod_mask := ucast (ringsz - 1),
                    cons_ep := \<lparr> head = \<lparr> cur = 0, pend = 0 \<rparr>, tail = 0, capacity = 0 \<rparr>,
                    cons_mask := ucast (ringsz - 1) \<rparr>
            in ([], rb OR push_bit 3 (ucast cons_flags) OR ucast prod_flags, heap(rb \<mapsto> obj))
          else ([], 0, heap))"

text \<open>
  \<open>p64_ringbuf_free\<close>: the result is the reports made and the store; freeing takes
  the buffer out of the store. Reading the header of a buffer that is not in the
  store is outside defined behaviour.
\<close>

definition p64_ringbuf_free :: "64 word \<Rightarrow> 'a heap \<Rightarrow> fault + report list \<times> 'a heap" where
  "p64_ringbuf_free rb heap =
     (if rb \<noteq> 0 then
        (case heap (RB rb) of
           None \<Rightarrow> Inl (Undefined_behaviour ''free of a buffer that is not allocated'')
         | Some obj \<Rightarrow>
             if cur (head (prod_ep obj)) \<noteq> cur (head (cons_ep obj))
             then Inr ([(''ringbuf'', ''ring buffer not empty'', RB rb)], heap)
             else Inr ([], heap(RB rb := None)))
      else Inr ([], heap))"

subsection \<open>Acquiring slots\<close>

text \<open>
  \<open>p64_ringbuf_result_t\<close> is declared in \<open>p64_ringbuf.h\<close>; the code fills its members
  \<open>index\<close>, \<open>actual\<close> and \<open>mask\<close> (here \<open>mask'\<close>). Its member \<open>ring\<close>, the address of
  the slot array, has no counterpart: the slot array is carried by the buffer record.
  \<open>MIN'\<close> is the macro \<open>MIN\<close> of \<open>common.h\<close>, on the \<open>int\<close> operands the code gives it.
\<close>

record p64_ringbuf_result_t =
  index :: "32 word"
  actual :: "32 word"
  mask' :: "32 word"

definition MIN' :: "int \<Rightarrow> int \<Rightarrow> int" where
  "MIN' a b = (if a < b then a else b)"

text \<open>MT-unsafe single producer/consumer code; \<open>n\<close> is the C \<open>int\<close> parameter.\<close>

definition acquire_slots ::
  "32 word \<Rightarrow> 32 word \<Rightarrow> 32 word \<Rightarrow> int \<Rightarrow> 32 word \<Rightarrow> p64_ringbuf_result_t" where
  "acquire_slots headp tailp msk n cap =
     (let t = tailp; h = headp;
          act = MIN' n (sint (cap + h - t))
      in if act \<le> 0 then \<lparr> index = 0, actual = 0, mask' = 0 \<rparr>
         else \<lparr> index = t, actual = word_of_int act, mask' = msk \<rparr>)"

text \<open>
  MT-safe multi producer/consumer code, the portable path (without
  \<open>__ARM_FEATURE_ATOMICS\<close>): \<open>tail\<close>, \<open>head.cur\<close> and \<open>capacity\<close> are read once, the
  loop retries the exchange on \<open>tail\<close>, which updates the local \<open>tail\<close> on failure.
  The result is the acquire result and the endpoint.
\<close>

function acquire_slots_mtsafe_loop ::
  "endpoint \<Rightarrow> 32 word \<Rightarrow> 32 word \<Rightarrow> 32 word \<Rightarrow> int \<Rightarrow> 32 word
    \<Rightarrow> p64_ringbuf_result_t \<times> endpoint" where
  "acquire_slots_mtsafe_loop ep h cap msk n t =
     (let act = MIN' n (sint (cap + h - t)) in
      if act \<le> 0 then (\<lparr> index = 0, actual = 0, mask' = 0 \<rparr>, ep)
      else
        let x = atomic_compare_exchange (tail ep) t (t + word_of_int act) in
        if fst x
        then (\<lparr> index = t, actual = word_of_int act, mask' = msk \<rparr>, ep \<lparr> tail := fst (snd x) \<rparr>)
        else acquire_slots_mtsafe_loop ep h cap msk n (snd (snd x)))"
  by pat_completeness auto
termination
  by (relation "measure (\<lambda>(ep, h, cap, msk, n, t). if t = tail ep then 0 else 1)")
    (auto simp: atomic_compare_exchange_def split: if_splits)

declare acquire_slots_mtsafe_loop.simps [simp del]

definition acquire_slots_mtsafe ::
  "endpoint \<Rightarrow> 32 word \<Rightarrow> int \<Rightarrow> p64_ringbuf_result_t \<times> endpoint" where
  "acquire_slots_mtsafe ep msk n =
     acquire_slots_mtsafe_loop ep (cur (head ep)) (capacity ep) msk n (tail ep)"

subsection \<open>Releasing slots\<close>

text \<open>
  The 8-byte view of an \<open>idxpair\<close> that the exchange on \<open>(uint64_t *)loc\<close> reads:
  \<open>cur\<close> is the lower half and \<open>pend\<close> the upper half, as \<open>TOLOWER(idx)\<close> standing
  for \<open>{cur = idx, pend = 0}\<close> in the code requires.
\<close>

definition LOWER :: "64 word \<Rightarrow> 32 word" where "LOWER x = ucast x"
definition TOLOWER :: "64 word \<Rightarrow> 32 word" where "TOLOWER x = ucast x"
definition UPPER :: "64 word \<Rightarrow> 32 word" where "UPPER x = ucast (drop_bit 32 x)"
definition TOUPPER :: "64 word \<Rightarrow> 64 word" where "TOUPPER x = push_bit 32 x"

definition idxpair_to_u64 :: "idxpair \<Rightarrow> 64 word" where
  "idxpair_to_u64 p = ucast (cur p) OR TOUPPER (ucast (pend p))"

definition u64_to_idxpair :: "64 word \<Rightarrow> idxpair" where
  "u64_to_idxpair w = \<lparr> cur = LOWER w, pend = UPPER w \<rparr>"

text \<open>
  Modelled from the spec: \<open>wait_until_equal_w_bkoff\<close> belongs to \<open>arch.h\<close>, which is
  not among the sources; it spins on a word until it has the given value. With no
  other thread the word never changes.
\<close>

partial_function (option) wait_until_equal_w_bkoff :: "32 word \<Rightarrow> 32 word \<Rightarrow> unit option" where
  "wait_until_equal_w_bkoff loc_cur idx =
     (if loc_cur = idx then Some () else wait_until_equal_w_bkoff loc_cur idx)"

declare wait_until_equal_w_bkoff.simps [code]

text \<open>
  \<open>__builtin_ctzl\<close> counts the trailing 0-bits of an \<open>unsigned long\<close>; its result is
  undefined for 0, which the code asserts away first.
\<close>

definition builtin_ctzl :: "64 word \<Rightarrow> nat" where
  "builtin_ctzl x = length (takeWhile (\<lambda>i. \<not> bit x i) [0..<64])"

text \<open>
  The first loop of the non-blocking release, one iteration: the in-order exchange
  against the content \<open>loc\<close> of the cell at that moment. \<open>Released\<close> is the
  \<open>return\<close> (with the new content), \<open>Pending\<close> the \<open>break\<close> (with \<open>old\<close>, the content
  seen), \<open>Doze\<close> the \<open>doze()\<close> before the next iteration.
\<close>

datatype inorder_result = Released "64 word" | Pending "64 word" | Doze

definition release_inorder_attempt :: "64 word \<Rightarrow> 32 word \<Rightarrow> 32 word \<Rightarrow> inorder_result" where
  "release_inorder_attempt loc idx n =
     (let old = ucast idx :: 64 word;
          neu = ucast (idx + n) :: 64 word;
          x = atomic_compare_exchange loc old neu
      in if fst x then Released (fst (snd x))
         else
           let old = snd (snd x);
               delta = LOWER neu - LOWER old
           in if delta \<le> PENDMAX then Pending old else Doze)"

text \<open>With no other thread, the cell is the same at every iteration.\<close>

partial_function (option) release_inorder_loop ::
  "64 word \<Rightarrow> 32 word \<Rightarrow> 32 word \<Rightarrow> inorder_result option" where
  "release_inorder_loop loc idx n =
     (case release_inorder_attempt loc idx n of
        Doze \<Rightarrow> release_inorder_loop loc idx n
      | r \<Rightarrow> Some r)"

declare release_inorder_loop.simps [code]

text \<open>
  The body of the second loop: from \<open>old\<close>, the content of the cell last seen, the
  value \<open>neu\<close> to exchange it for. A shift by 32 or more is outside defined behaviour.
\<close>

definition release_pending_update :: "64 word \<Rightarrow> 32 word \<Rightarrow> 32 word \<Rightarrow> fault + 64 word" where
  "release_pending_update old idx n =
     (if \<not> n < PENDMAX then Inl (Assert_failed ''n < PENDMAX'')
      else
        let offset = idx - LOWER old in
        if \<not> n + offset \<le> PENDMAX then Inl (Assert_failed ''n + offset <= PENDMAX'')
        else if \<not> offset < 32 then Inl (Undefined_behaviour ''shift count'')
        else
          let ourpend = push_bit (unat offset) (push_bit (unat n) 1 - 1) :: 32 word in
          if UPPER old AND ourpend \<noteq> 0
          then Inl (Assert_failed ''(UPPER(old) & ourpend) == 0'')
          else
            let newpend = ucast (UPPER old OR ourpend) :: 64 word in
            if NOT newpend = 0 then Inl (Assert_failed ''~newpend != 0'')
            else
              let inorder = of_nat (builtin_ctzl (NOT newpend)) :: 32 word in
              if \<not> inorder \<le> PENDMAX then Inl (Assert_failed ''inorder <= PENDMAX'')
              else
                let neu = ucast (TOLOWER (old + ucast inorder))
                            OR TOUPPER (drop_bit (unat inorder) newpend)
                in if UPPER neu AND 1 \<noteq> 0
                   then Inl (Assert_failed ''(UPPER(neu) & 1) == 0'')
                   else Inr neu)"

function release_pending_loop :: "64 word \<Rightarrow> 64 word \<Rightarrow> 32 word \<Rightarrow> 32 word \<Rightarrow> fault + 64 word" where
  "release_pending_loop loc old idx n =
     (case release_pending_update old idx n of
        Inl f \<Rightarrow> Inl f
      | Inr neu \<Rightarrow>
          let x = atomic_compare_exchange loc old neu in
          if fst x then Inr (fst (snd x))
          else release_pending_loop loc (snd (snd x)) idx n)"
  by pat_completeness auto
termination
  by (relation "measure (\<lambda>(loc, old, idx, n). if old = loc then 0 else 1)")
    (auto simp: atomic_compare_exchange_def split: if_splits)

declare release_pending_loop.simps [simp del]

text \<open>
  \<open>release_slots\<close> by one caller with no other thread, on the content \<open>loc\<close> of the
  cell; the result is the cell's new content. \<open>loads_only\<close> selects the fence only:
  both branches store \<open>idx + n\<close>.
\<close>

definition release_slots ::
  "idxpair \<Rightarrow> 32 word \<Rightarrow> 32 word \<Rightarrow> bool \<Rightarrow> 32 word \<Rightarrow> (fault + idxpair) option" where
  "release_slots loc idx n loads_only flags =
     do {
       _ \<leftarrow> (if flags AND FLAG_BLK \<noteq> 0 then wait_until_equal_w_bkoff (cur loc) idx
             else Some ());
       if flags AND FLAG_NONBLK = 0
       then (if loads_only then Some (Inr (loc \<lparr> cur := idx + n \<rparr>))
             else Some (Inr (loc \<lparr> cur := idx + n \<rparr>)))
       else
         do {
           r \<leftarrow> release_inorder_loop (idxpair_to_u64 loc) idx n;
           (case r of
              Released loc' \<Rightarrow> Some (Inr (u64_to_idxpair loc'))
            | Pending old \<Rightarrow>
                (case release_pending_loop (idxpair_to_u64 loc) old idx n of
                   Inl f \<Rightarrow> Some (Inl f)
                 | Inr loc' \<Rightarrow> Some (Inr (u64_to_idxpair loc')))
            | Doze \<Rightarrow> None)
         }
     }"

subsection \<open>Copying payloads\<close>

text \<open>
  An array is the memory from its base on, by offset. \<open>copy_voidptr dst d src s num\<close>
  is the call \<open>copy_voidptr(dst + d, src + s, num)\<close>; the arrays are \<open>restrict\<close>, so
  source and destination are different memories.
\<close>

function copy_voidptr_loop ::
  "(nat \<Rightarrow> 'a) \<Rightarrow> nat \<Rightarrow> (nat \<Rightarrow> 'a) \<Rightarrow> nat \<Rightarrow> nat \<Rightarrow> nat \<Rightarrow> nat \<Rightarrow> 'a" where
  "copy_voidptr_loop dst d src s num i =
     (if i < num then copy_voidptr_loop (dst (d + i := src (s + i))) d src s num (i + 1)
      else dst)"
  by pat_completeness auto
termination
  by (relation "measure (\<lambda>(dst, d, src, s, num, i). num - i)") auto

declare copy_voidptr_loop.simps [simp del]

definition copy_voidptr ::
  "(nat \<Rightarrow> 'a) \<Rightarrow> nat \<Rightarrow> (nat \<Rightarrow> 'a) \<Rightarrow> nat \<Rightarrow> 32 word \<Rightarrow> nat \<Rightarrow> 'a" where
  "copy_voidptr dst d src s num = copy_voidptr_loop dst d src s (unat num) 0"

definition write_slots ::
  "(nat \<Rightarrow> 'a) \<Rightarrow> (nat \<Rightarrow> 'a) \<Rightarrow> p64_ringbuf_result_t \<Rightarrow> nat \<Rightarrow> 'a" where
  "write_slots rbring ev r =
     (let ring0 = unat (index r AND mask' r) in
      if actual r \<le> 1 then rbring (ring0 := ev 0)
      else
        let seg0 = mask' r + 1 - (index r AND mask' r) in
        if actual r \<le> seg0 then copy_voidptr rbring ring0 ev 0 (actual r)
        else
          copy_voidptr (copy_voidptr rbring ring0 ev 0 seg0) 0 ev (unat seg0) (actual r - seg0))"

definition read_slots ::
  "(nat \<Rightarrow> 'a) \<Rightarrow> (nat \<Rightarrow> 'a) \<Rightarrow> p64_ringbuf_result_t \<Rightarrow> nat \<Rightarrow> 'a" where
  "read_slots rbring ev r =
     (let ring0 = unat (index r AND mask' r) in
      if actual r \<le> 1 then ev (0 := rbring ring0)
      else
        let seg0 = mask' r + 1 - (index r AND mask' r) in
        if actual r \<le> seg0 then copy_voidptr ev 0 rbring ring0 (actual r)
        else
          copy_voidptr (copy_voidptr ev 0 rbring ring0 seg0) (unat seg0) rbring 0 (actual r - seg0))"

text \<open>The NBENQ write path: elements 1 and up, then element 0.\<close>

function nbenq_store_loop ::
  "(nat \<Rightarrow> 'a) \<Rightarrow> (nat \<Rightarrow> 'a) \<Rightarrow> p64_ringbuf_result_t \<Rightarrow> nat \<Rightarrow> nat \<Rightarrow> 'a" where
  "nbenq_store_loop rbring ev r i =
     (if i < unat (actual r)
      then nbenq_store_loop
             (rbring (unat ((index r + of_nat i) AND mask' r) := ev i)) ev r (i + 1)
      else rbring)"
  by pat_completeness auto
termination
  by (relation "measure (\<lambda>(rbring, ev, r, i). unat (actual r) - i)") auto

declare nbenq_store_loop.simps [simp del]

definition nbenq_write_slots ::
  "(nat \<Rightarrow> 'a) \<Rightarrow> (nat \<Rightarrow> 'a) \<Rightarrow> p64_ringbuf_result_t \<Rightarrow> nat \<Rightarrow> 'a" where
  "nbenq_write_slots rbring ev r =
     (nbenq_store_loop rbring ev r 1) (unat ((index r + 0) AND mask' r) := ev 0)"

subsection \<open>Enqueue and dequeue\<close>

text \<open>
  The operations take the handle (the pointer with the mode bits) and the buffer it
  points to, and return the buffer as they leave it. \<open>ev\<close> is the caller's array.
\<close>

definition p64_ringbuf_enqueue ::
  "64 word \<Rightarrow> 'a p64_ringbuf \<Rightarrow> (nat \<Rightarrow> 'a) \<Rightarrow> 32 word
    \<Rightarrow> (fault + 32 word \<times> 'a p64_ringbuf) option" where
  "p64_ringbuf_enqueue hdl rb ev num =
     (let prod_flags = PROD_FLAGS hdl;
          acq =
            (if prod_flags AND (FLAG_BLK OR FLAG_NONBLK) = 0
             then (acquire_slots (cur (head (prod_ep rb))) (cur (head (cons_ep rb)))
                     (prod_mask rb) (sint num) (capacity (prod_ep rb)), rb)
             else
               (let a = acquire_slots_mtsafe (prod_ep rb) (prod_mask rb) (sint num)
                in (fst a, rb \<lparr> prod_ep := snd a \<rparr>)));
          r = fst acq;
          rb = snd acq
      in
      if actual r = 0 then Some (Inr (0, rb))
      else
        let rb =
              (if prod_flags AND FLAG_NONBLK \<noteq> 0
               then rb \<lparr> ring := nbenq_write_slots (ring rb) ev r \<rparr>
               else rb \<lparr> ring := write_slots (ring rb) ev r \<rparr>)
        in
        do {
          rel \<leftarrow> release_slots (head (cons_ep rb)) (index r) (actual r) False prod_flags;
          (case rel of
             Inl f \<Rightarrow> Some (Inl f)
           | Inr loc \<Rightarrow> Some (Inr (actual r, rb \<lparr> cons_ep := (cons_ep rb) \<lparr> head := loc \<rparr> \<rparr>)))
        })"

text \<open>
  The lock-free dequeue loop: \<open>t\<close> and \<open>h\<close> are the local \<open>tail\<close> and \<open>head\<close>; the
  exchange updates \<open>head\<close> on failure. The result of a dequeue is the count, the
  caller's array, \<open>*index\<close> when it was written, and the buffer.
\<close>

function lockfree_dequeue_loop ::
  "'a p64_ringbuf \<Rightarrow> (nat \<Rightarrow> 'a) \<Rightarrow> 32 word \<Rightarrow> 32 word \<Rightarrow> 32 word
    \<Rightarrow> 32 word \<times> (nat \<Rightarrow> 'a) \<times> 32 word option \<times> 'a p64_ringbuf" where
  "lockfree_dequeue_loop rb ev num t h =
     (let act = MIN' (sint num) (sint (t - h)) in
      if act \<le> 0 then (0, ev, None, rb)
      else
        let r = \<lparr> index = h, actual = word_of_int act, mask' = cons_mask rb \<rparr>;
            ev = read_slots (ring rb) ev r;
            x = atomic_compare_exchange (cur (head (prod_ep rb))) h (h + word_of_int act)
        in
        if fst x
        then (word_of_int act, ev, Some h,
              rb \<lparr> prod_ep := (prod_ep rb) \<lparr> head := (head (prod_ep rb)) \<lparr> cur := fst (snd x) \<rparr> \<rparr> \<rparr>)
        else lockfree_dequeue_loop rb ev num t (snd (snd x)))"
  by pat_completeness auto
termination
  by (relation "measure (\<lambda>(rb, ev, num, t, h). if h = cur (head (prod_ep rb)) then 0 else 1)")
    (auto simp: atomic_compare_exchange_def split: if_splits)

declare lockfree_dequeue_loop.simps [simp del]

definition p64_ringbuf_dequeue ::
  "64 word \<Rightarrow> 'a p64_ringbuf \<Rightarrow> (nat \<Rightarrow> 'a) \<Rightarrow> 32 word
    \<Rightarrow> (fault + 32 word \<times> (nat \<Rightarrow> 'a) \<times> 32 word option \<times> 'a p64_ringbuf) option" where
  "p64_ringbuf_dequeue hdl rb ev num =
     (let cons_flags = CONS_FLAGS hdl in
      if cons_flags AND FLAG_LOCKFREE \<noteq> 0
      then Some (Inr (lockfree_dequeue_loop rb ev num
                        (cur (head (cons_ep rb))) (cur (head (prod_ep rb)))))
      else
        let acq =
              (if cons_flags AND (FLAG_BLK OR FLAG_NONBLK) = 0
               then (acquire_slots (cur (head (cons_ep rb))) (cur (head (prod_ep rb)))
                       (cons_mask rb) (sint num) 0, rb)
               else
                 (let a = acquire_slots_mtsafe (cons_ep rb) (cons_mask rb) (sint num)
                  in (fst a, rb \<lparr> cons_ep := snd a \<rparr>)));
            r = fst acq;
            rb = snd acq
        in
        if actual r = 0 then Some (Inr (0, ev, None, rb))
        else
          let ev = read_slots (ring rb) ev r in
          do {
            rel \<leftarrow> release_slots (head (prod_ep rb)) (index r) (actual r) True cons_flags;
            (case rel of
               Inl f \<Rightarrow> Some (Inl f)
             | Inr loc \<Rightarrow>
                 Some (Inr (actual r, ev, Some (index r),
                            rb \<lparr> prod_ep := (prod_ep rb) \<lparr> head := loc \<rparr> \<rparr>)))
          })"

subsection \<open>The two-phase interface\<close>

text \<open>
  \<open>p64_ringbuf_acquire'\<close> and \<open>p64_ringbuf_release'\<close> are the functions
  \<open>p64_ringbuf_acquire_\<close> and \<open>p64_ringbuf_release_\<close> of the source.
\<close>

definition p64_ringbuf_acquire' ::
  "64 word \<Rightarrow> 'a p64_ringbuf \<Rightarrow> 32 word \<Rightarrow> bool \<Rightarrow> p64_ringbuf_result_t \<times> 'a p64_ringbuf" where
  "p64_ringbuf_acquire' hdl rb num enqueue =
     (let prod_flags = PROD_FLAGS hdl;
          cons_flags = CONS_FLAGS hdl
      in
      if enqueue then
        (if prod_flags AND (FLAG_BLK OR FLAG_NONBLK) = 0
         then (acquire_slots (cur (head (prod_ep rb))) (cur (head (cons_ep rb)))
                 (prod_mask rb) (sint num) (capacity (prod_ep rb)), rb)
         else
           (let a = acquire_slots_mtsafe (prod_ep rb) (prod_mask rb) (sint num)
            in (fst a, rb \<lparr> prod_ep := snd a \<rparr>)))
      else if cons_flags AND FLAG_LOCKFREE \<noteq> 0 then
        (let msk = cons_mask rb;
             h = cur (head (prod_ep rb));
             t = cur (head (cons_ep rb));
             act = MIN' (sint num) (sint (t - h))
         in if act \<le> 0 then (\<lparr> index = 0, actual = 0, mask' = 0 \<rparr>, rb)
            else (\<lparr> index = h, actual = word_of_int act, mask' = msk \<rparr>, rb))
      else
        (if cons_flags AND (FLAG_BLK OR FLAG_NONBLK) = 0
         then (acquire_slots (cur (head (cons_ep rb))) (cur (head (prod_ep rb)))
                 (cons_mask rb) (sint num) 0, rb)
         else
           (let a = acquire_slots_mtsafe (cons_ep rb) (cons_mask rb) (sint num)
            in (fst a, rb \<lparr> cons_ep := snd a \<rparr>))))"

text \<open>
  The exchange of the lock-free release is weak and its outcome is returned, so a
  spurious failure is visible: \<open>spurious\<close> is the hardware's choice for the call.
\<close>

definition atomic_compare_exchange_weak :: "bool \<Rightarrow> 'v \<Rightarrow> 'v \<Rightarrow> 'v \<Rightarrow> bool \<times> 'v \<times> 'v" where
  "atomic_compare_exchange_weak spurious mem expected desired =
     (if spurious then (False, mem, mem) else atomic_compare_exchange mem expected desired)"

definition p64_ringbuf_release' ::
  "64 word \<Rightarrow> 'a p64_ringbuf \<Rightarrow> p64_ringbuf_result_t \<Rightarrow> bool \<Rightarrow> bool
    \<Rightarrow> (fault + bool \<times> 'a p64_ringbuf) option" where
  "p64_ringbuf_release' hdl rb r enqueue spurious =
     (let prod_flags = PROD_FLAGS hdl;
          cons_flags = CONS_FLAGS hdl
      in
      if enqueue then
        do {
          rel \<leftarrow> release_slots (head (cons_ep rb)) (index r) (actual r) False prod_flags;
          (case rel of
             Inl f \<Rightarrow> Some (Inl f)
           | Inr loc \<Rightarrow> Some (Inr (True, rb \<lparr> cons_ep := (cons_ep rb) \<lparr> head := loc \<rparr> \<rparr>)))
        }
      else if cons_flags AND FLAG_LOCKFREE \<noteq> 0 then
        (let x = atomic_compare_exchange_weak spurious
                   (cur (head (prod_ep rb))) (index r) (index r + actual r);
             success = fst x
         in Some (Inr (success,
              rb \<lparr> prod_ep := (prod_ep rb) \<lparr> head := (head (prod_ep rb)) \<lparr> cur := fst (snd x) \<rparr> \<rparr> \<rparr>)))
      else
        do {
          rel \<leftarrow> release_slots (head (prod_ep rb)) (index r) (actual r) True cons_flags;
          (case rel of
             Inl f \<Rightarrow> Some (Inl f)
           | Inr loc \<Rightarrow> Some (Inr (True, rb \<lparr> prod_ep := (prod_ep rb) \<lparr> head := loc \<rparr> \<rparr>)))
        })"

section \<open>Vocabulary of the properties\<close>

text \<open>
  The rejected flag words, in the words of the specification: a bit outside the
  supported set, or both members of a mutually exclusive pair.
\<close>

definition has_flag :: "32 word \<Rightarrow> 32 word \<Rightarrow> bool" where
  "has_flag flags f \<longleftrightarrow> flags AND f = f"

definition invalid_flags :: "ringbuf_flags \<Rightarrow> 32 word \<Rightarrow> bool" where
  "invalid_flags F flags \<longleftrightarrow>
     flags AND NOT (SUPPORTED_FLAGS F) \<noteq> 0 \<or>
     has_flag flags (P64_RINGBUF_F_SPENQ F) \<and> has_flag flags (P64_RINGBUF_F_NBENQ F) \<or>
     has_flag flags (P64_RINGBUF_F_SCDEQ F) \<and> has_flag flags (P64_RINGBUF_F_NBDEQ F) \<or>
     has_flag flags (P64_RINGBUF_F_SCDEQ F) \<and> has_flag flags (P64_RINGBUF_F_LFDEQ F) \<or>
     has_flag flags (P64_RINGBUF_F_NBDEQ F) \<and> has_flag flags (P64_RINGBUF_F_LFDEQ F)"

text \<open>
  The mode bits \<open>p64_ringbuf_alloc\<close> puts into the handle and the header it writes
  into the fresh block, named for the lemmas.
\<close>

definition alloc_prod_flags :: "ringbuf_flags \<Rightarrow> 32 word \<Rightarrow> 32 word" where
  "alloc_prod_flags F flags =
     (if flags AND P64_RINGBUF_F_SPENQ F \<noteq> 0 then 0
      else if flags AND P64_RINGBUF_F_NBENQ F \<noteq> 0 then FLAG_NONBLK
      else FLAG_BLK)"

definition alloc_cons_flags :: "ringbuf_flags \<Rightarrow> 32 word \<Rightarrow> 32 word" where
  "alloc_cons_flags F flags =
     (if flags AND P64_RINGBUF_F_SCDEQ F \<noteq> 0 then 0
      else if flags AND P64_RINGBUF_F_NBDEQ F \<noteq> 0 then FLAG_NONBLK
      else FLAG_BLK) OR
     (if flags AND P64_RINGBUF_F_LFDEQ F \<noteq> 0 then FLAG_LOCKFREE else 0)"

definition alloc_object :: "32 word \<Rightarrow> 'a p64_ringbuf \<Rightarrow> 'a p64_ringbuf" where
  "alloc_object nelems fresh = fresh
     \<lparr> prod_ep := \<lparr> head = \<lparr> cur = 0, pend = 0 \<rparr>, tail = 0, capacity = nelems \<rparr>,
       prod_mask := ucast (ROUNDUP_POW2 nelems - 1),
       cons_ep := \<lparr> head = \<lparr> cur = 0, pend = 0 \<rparr>, tail = 0, capacity = 0 \<rparr>,
       cons_mask := ucast (ROUNDUP_POW2 nelems - 1) \<rparr>"

text \<open>
  The pending bitmap, in the words of the specification: the mask with the bits
  \<open>[off, off + n)\<close> set, and the count of trailing ones of a mask.
\<close>

definition slot_bits :: "nat \<Rightarrow> nat \<Rightarrow> 32 word" where
  "slot_bits off n = push_bit off (mask n)"

definition trailing_ones :: "32 word \<Rightarrow> nat" where
  "trailing_ones w = length (takeWhile (bit w) [0..<32])"

text \<open>
  The slot that element \<open>k\<close> of an acquired range occupies: the range starts at
  \<open>index & mask\<close> and continues at slot 0 after \<open>seg0 = mask + 1 - (index & mask)\<close>
  elements. \<open>two_subranges\<close> is the test under which \<open>write_slots\<close> and \<open>read_slots\<close>
  take their branch for a range that wraps around the end of the ring.
\<close>

definition slot_of :: "p64_ringbuf_result_t \<Rightarrow> nat \<Rightarrow> nat" where
  "slot_of r k =
     (let first = unat (index r AND mask' r);
          seg0 = unat (mask' r) + 1 - first
      in if k < seg0 then first + k else k - seg0)"

definition two_subranges :: "p64_ringbuf_result_t \<Rightarrow> bool" where
  "two_subranges r \<longleftrightarrow>
     \<not> actual r \<le> 1 \<and> \<not> actual r \<le> mask' r + 1 - (index r AND mask' r)"

text \<open>
  A quiescent empty ring, as a handle of any mode sees it: no operation is under
  way, producer and consumer positions agree and nothing is pending. The \<open>tail\<close> of
  an endpoint counts only in the modes that use it.
\<close>

definition quiescent_empty :: "64 word \<Rightarrow> 'a p64_ringbuf \<Rightarrow> bool" where
  "quiescent_empty hdl rb \<longleftrightarrow>
     head (cons_ep rb) = \<lparr> cur = cur (head (prod_ep rb)), pend = 0 \<rparr> \<and>
     pend (head (prod_ep rb)) = 0 \<and>
     prod_mask rb = cons_mask rb \<and>
     (PROD_FLAGS hdl AND (FLAG_BLK OR FLAG_NONBLK) \<noteq> 0 \<longrightarrow>
        tail (prod_ep rb) = cur (head (prod_ep rb))) \<and>
     (CONS_FLAGS hdl AND FLAG_LOCKFREE = 0 \<and> CONS_FLAGS hdl AND (FLAG_BLK OR FLAG_NONBLK) \<noteq> 0 \<longrightarrow>
        tail (cons_ep rb) = cur (head (prod_ep rb)) \<and> capacity (cons_ep rb) = 0)"

text \<open>
  Data for the worked instances: one assignment of distinct bits to the public flags,
  and a block of memory with arbitrary content.
\<close>

definition example_flags :: ringbuf_flags where
  "example_flags =
     \<lparr> P64_RINGBUF_F_SPENQ = 1, P64_RINGBUF_F_MPENQ = 0,
       P64_RINGBUF_F_SCDEQ = 2, P64_RINGBUF_F_MCDEQ = 0,
       P64_RINGBUF_F_NBENQ = 4, P64_RINGBUF_F_NBDEQ = 8,
       P64_RINGBUF_F_LFDEQ = 16 \<rparr>"

definition fresh_block :: "nat p64_ringbuf" where
  "fresh_block =
     \<lparr> prod_ep = \<lparr> head = \<lparr> cur = 7, pend = 7 \<rparr>, tail = 7, capacity = 7 \<rparr>,
       prod_mask = 7,
       cons_ep = \<lparr> head = \<lparr> cur = 7, pend = 7 \<rparr>, tail = 7, capacity = 7 \<rparr>,
       cons_mask = 7,
       ring = (\<lambda>_. 0) \<rparr>"

text \<open>
  Consecutive one-element calls: \<open>enqueue_each\<close> enqueues the elements of a list one
  call after the other, each from an array that holds the element at offset 0, and
  collects the counts returned; \<open>dequeue_each\<close> makes \<open>k\<close> one-element dequeues into
  the array \<open>ev\<close> and collects the counts returned with the elements read.
\<close>

fun enqueue_each ::
  "64 word \<Rightarrow> 'a p64_ringbuf \<Rightarrow> 'a list \<Rightarrow> (fault + 32 word list \<times> 'a p64_ringbuf) option" where
  "enqueue_each hdl rb [] = Some (Inr ([], rb))"
| "enqueue_each hdl rb (x # xs) =
     do {
       r \<leftarrow> p64_ringbuf_enqueue hdl rb (\<lambda>_. x) 1;
       (case r of
          Inl f \<Rightarrow> Some (Inl f)
        | Inr (n, rb') \<Rightarrow>
            do {
              r' \<leftarrow> enqueue_each hdl rb' xs;
              (case r' of
                 Inl f \<Rightarrow> Some (Inl f)
               | Inr (ns, rb'') \<Rightarrow> Some (Inr (n # ns, rb'')))
            })
     }"

fun dequeue_each ::
  "64 word \<Rightarrow> 'a p64_ringbuf \<Rightarrow> (nat \<Rightarrow> 'a) \<Rightarrow> nat
    \<Rightarrow> (fault + (32 word \<times> 'a) list \<times> 'a p64_ringbuf) option" where
  "dequeue_each hdl rb ev 0 = Some (Inr ([], rb))"
| "dequeue_each hdl rb ev (Suc k) =
     do {
       r \<leftarrow> p64_ringbuf_dequeue hdl rb ev 1;
       (case r of
          Inl f \<Rightarrow> Some (Inl f)
        | Inr (n, out, idx, rb') \<Rightarrow>
            do {
              r' \<leftarrow> dequeue_each hdl rb' ev k;
              (case r' of
                 Inl f \<Rightarrow> Some (Inl f)
               | Inr (ns, rb'') \<Rightarrow> Some (Inr ((n, out 0) # ns, rb'')))
            })
     }"

text \<open>
  A single-producer single-consumer ring allocated for \<open>nelems\<close> elements into which
  the elements \<open>xs\<close> have been enqueued, and from which the first \<open>j\<close> of them have
  been dequeued.
\<close>

definition spsc_holds :: "32 word \<Rightarrow> 'a p64_ringbuf \<Rightarrow> 'a list \<Rightarrow> nat \<Rightarrow> bool" where
  "spsc_holds nelems rb xs j \<longleftrightarrow>
     capacity (prod_ep rb) = nelems \<and>
     prod_mask rb = ucast (ROUNDUP_POW2 nelems - 1) \<and>
     cons_mask rb = ucast (ROUNDUP_POW2 nelems - 1) \<and>
     cur (head (prod_ep rb)) = word_of_nat j \<and>
     cur (head (cons_ep rb)) = word_of_nat (length xs) \<and>
     (\<forall>i<length xs. ring rb i = xs ! i) \<and>
     j \<le> length xs \<and> length xs \<le> unat nelems"

text \<open>
  The condition on the lock word in the words of the specification: either the writer
  bit is set and the reader count is zero, or the writer bit is clear.
\<close>

definition writer_excludes_readers :: "p64_rwlock_t \<Rightarrow> bool" where
  "writer_excludes_readers lock \<longleftrightarrow>
     (lock AND RWLOCK_WRITER \<noteq> 0 \<and> lock AND RWLOCK_READERS = 0) \<or> lock AND RWLOCK_WRITER = 0"

text \<open>
  What the accesses keep true of a running system of \<open>n\<close> threads: the reader field
  counts the threads between \<open>acquire_rd\<close> and the fetch-and-subtract of \<open>release_rd\<close>;
  the writer flag is set exactly when one thread is past the exchange of \<open>acquire_wr\<close>
  and before the store of \<open>release_wr\<close>; once that thread has left \<open>acquire_wr\<close> the
  reader field is zero; and a value read for an exchange has the writer flag clear.
\<close>

fun lock_inv :: "nat \<Rightarrow> rwlock_system \<Rightarrow> bool" where
  "lock_inv n (Running lock T) \<longleftrightarrow>
     size T = n \<and>
     unat (lock AND RWLOCK_READERS) = count T Reading \<and>
     (if lock AND RWLOCK_WRITER = 0 then 0 else 1) =
       count T Wr_drain + count T Writing + count T Wr_store \<and>
     (Writing \<in># T \<or> Wr_store \<in># T \<longrightarrow> lock AND RWLOCK_READERS = 0) \<and>
     (\<forall>l. Rd_exchange l \<in># T \<or> Wr_exchange l \<in># T \<longrightarrow> l AND RWLOCK_WRITER = 0)"
| "lock_inv n (Stopped lock) \<longleftrightarrow> True"

section \<open>Reader/writer lock: one caller\<close>

lemma wait_for_no_Some:
  assumes "wait_for_no lock msk = Some y"
  shows "lock AND msk = 0"
  by (rule wait_for_no.raw_induct [OF _ assms, where P = "\<lambda>l m y. l AND m = 0"])
    (auto split: if_splits)

lemma wait_for_no_eq:
  "wait_for_no lock msk = (if lock AND msk \<noteq> 0 then None else Some lock)"
proof (cases "lock AND msk \<noteq> 0")
  case True
  with wait_for_no_Some [of lock msk] show ?thesis
    by (cases "wait_for_no lock msk") auto
next
  case False
  then show ?thesis by (subst wait_for_no.simps) simp
qed

lemma p64_rwlock_acquire_rd_eq:
  "p64_rwlock_acquire_rd lock =
     (if lock AND RWLOCK_WRITER \<noteq> 0 then None else Some (lock + 1))"
  by (subst p64_rwlock_acquire_rd.simps)
    (simp add: wait_for_no_eq atomic_compare_exchange_def)

lemma bit_RWLOCK_WRITER: "bit RWLOCK_WRITER n \<longleftrightarrow> n = 31"
  unfolding RWLOCK_WRITER_def
  by (simp only: bit_push_bit_iff bit_1_iff possible_bit_word) auto

lemma RWLOCK_READERS_mask: "RWLOCK_READERS = mask 31"
  by (simp add: RWLOCK_READERS_def RWLOCK_WRITER_def mask_eq_exp_minus_1)

lemma writer_clear_iff: "lock AND RWLOCK_WRITER = 0 \<longleftrightarrow> \<not> bit lock 31"
proof
  assume "lock AND RWLOCK_WRITER = 0"
  then have "bit (lock AND RWLOCK_WRITER) 31 = bit (0 :: 32 word) 31" by simp
  then show "\<not> bit lock 31" by (simp add: bit_and_iff bit_RWLOCK_WRITER)
next
  assume "\<not> bit lock 31"
  then show "lock AND RWLOCK_WRITER = 0"
    by (intro bit_word_eqI) (auto simp: bit_and_iff bit_RWLOCK_WRITER)
qed

lemma int_lt_2p31: "int x < 2 ^ 31 \<longleftrightarrow> x < 2 ^ 31"
  by simp

lemma mask31_iff: "(w :: 32 word) AND mask 31 = w \<longleftrightarrow> unat w < 2 ^ 31"
  unfolding mask_eq_iff uint_nat by (rule int_lt_2p31)

lemma bit31_iff: "\<not> bit (w :: 32 word) 31 \<longleftrightarrow> unat w < 2 ^ 31"
proof -
  have "\<not> bit w 31 \<longleftrightarrow> w AND mask 31 = w"
  proof
    assume clear: "\<not> bit w 31"
    show "w AND mask 31 = w"
    proof (rule bit_word_eqI)
      fix n assume "n < LENGTH(32)"
      then have "n < 31 \<or> n = 31" by auto
      with clear show "bit (w AND mask 31) n = bit w n" by (auto simp: bit_simps)
    qed
  next
    assume "w AND mask 31 = w"
    then have "bit w 31 = bit (w AND mask 31) 31" by simp
    then show "\<not> bit w 31" by (simp add: bit_simps)
  qed
  then show ?thesis by (simp only: mask31_iff)
qed

lemma writer_clear_less: "lock AND RWLOCK_WRITER = 0 \<longleftrightarrow> unat lock < 2 ^ 31"
  by (simp only: writer_clear_iff bit31_iff)

lemma readers_of_less: "unat lock < 2 ^ 31 \<Longrightarrow> lock AND RWLOCK_READERS = lock"
  by (simp only: RWLOCK_READERS_mask mask31_iff)

lemma reader_count_incremented:
  assumes "lock AND RWLOCK_WRITER = 0" "lock AND RWLOCK_READERS \<noteq> RWLOCK_READERS"
  shows "(lock + 1) AND RWLOCK_WRITER = 0 \<and>
    unat ((lock + 1) AND RWLOCK_READERS) = unat (lock AND RWLOCK_READERS) + 1"
proof -
  from assms(1) have lt: "unat lock < 2 ^ 31" by (simp only: writer_clear_less)
  then have m: "lock AND RWLOCK_READERS = lock" by (rule readers_of_less)
  with assms(2) have "lock \<noteq> mask 31" by (simp add: RWLOCK_READERS_mask)
  then have "lock \<noteq> 2147483647" by (simp add: mask_eq_exp_minus_1)
  then have "unat lock \<noteq> 2 ^ 31 - 1" by (simp add: word_unat_eq_iff)
  with lt have lt': "unat lock + 1 < 2 ^ 31" by simp
  then have u: "unat (lock + 1) = unat lock + 1" by (simp add: unat_word_ariths)
  with lt' have lt2: "unat (lock + 1) < 2 ^ 31" by simp
  then have c: "(lock + 1) AND RWLOCK_WRITER = 0" by (simp only: writer_clear_less)
  from lt2 have "(lock + 1) AND RWLOCK_READERS = lock + 1" by (rule readers_of_less)
  with c u m show ?thesis by simp
qed

text \<open>
  C7 (as stated): with the 31-bit reader field exhausted, \<open>p64_rwlock_acquire_rd\<close>
  does not increment the word but fails. The code has no such check: from the word
  \<open>0x7FFFFFFF\<close> (writer bit clear, all reader bits set) the acquire returns, and the
  increment has carried into the writer flag.
\<close>

theorem p64_rwlock_acquire_rd_overflow:
  "(0x7FFFFFFF :: 32 word) AND RWLOCK_READERS = RWLOCK_READERS \<and>
   p64_rwlock_acquire_rd 0x7FFFFFFF = Some 0x80000000 \<and>
   (0x80000000 :: 32 word) AND RWLOCK_WRITER = RWLOCK_WRITER"
  by (simp add: p64_rwlock_acquire_rd_eq RWLOCK_WRITER_def RWLOCK_READERS_def)

text \<open>
  C7 (amended): \<open>p64_rwlock_acquire_rd\<close> makes no overflow check. From every lock word
  with the writer bit clear it returns with the word incremented by one; when the
  reader field is below its maximum, that is the reader count raised by one with the
  writer bit still clear.
\<close>

theorem p64_rwlock_acquire_rd_increments:
  assumes "lock AND RWLOCK_WRITER = 0"
  shows "p64_rwlock_acquire_rd lock = Some (lock + 1) \<and>
    (lock AND RWLOCK_READERS \<noteq> RWLOCK_READERS \<longrightarrow>
      (lock + 1) AND RWLOCK_WRITER = 0 \<and>
      unat ((lock + 1) AND RWLOCK_READERS) = unat (lock AND RWLOCK_READERS) + 1)"
  using assms reader_count_incremented [of lock]
  by (simp add: p64_rwlock_acquire_rd_eq)

theorem p64_rwlock_acquire_rd_increments_witness:
  "p64_rwlock_acquire_rd 5 = Some 6 \<and>
   (6 :: 32 word) AND RWLOCK_WRITER = 0 \<and>
   unat ((6 :: 32 word) AND RWLOCK_READERS) = unat ((5 :: 32 word) AND RWLOCK_READERS) + 1"
  using p64_rwlock_acquire_rd_increments [of 5]
  by (simp add: RWLOCK_WRITER_def RWLOCK_READERS_def)

section \<open>Reader/writer lock: interleavings\<close>

lemma readers_incremented:
  assumes "lock AND RWLOCK_WRITER = 0" "unat (lock AND RWLOCK_READERS) + 1 < 2 ^ 31"
  shows "(lock + 1) AND RWLOCK_WRITER = 0 \<and>
    unat ((lock + 1) AND RWLOCK_READERS) = unat (lock AND RWLOCK_READERS) + 1"
proof (rule reader_count_incremented [OF assms(1)])
  show "lock AND RWLOCK_READERS \<noteq> RWLOCK_READERS"
  proof
    assume "lock AND RWLOCK_READERS = RWLOCK_READERS"
    with assms(2) have "unat RWLOCK_READERS + 1 < 2 ^ 31" by simp
    then show False by (simp add: RWLOCK_READERS_def RWLOCK_WRITER_def)
  qed
qed

lemma writer_set:
  assumes "lock AND RWLOCK_WRITER = 0"
  shows "(lock OR RWLOCK_WRITER) AND RWLOCK_WRITER \<noteq> 0 \<and>
    (lock OR RWLOCK_WRITER) AND RWLOCK_READERS = lock AND RWLOCK_READERS"
proof
  have "bit ((lock OR RWLOCK_WRITER) AND RWLOCK_WRITER) 31"
    by (simp add: bit_and_iff bit_or_iff bit_RWLOCK_WRITER)
  then show "(lock OR RWLOCK_WRITER) AND RWLOCK_WRITER \<noteq> 0" by auto
  show "(lock OR RWLOCK_WRITER) AND RWLOCK_READERS = lock AND RWLOCK_READERS"
    by (rule bit_word_eqI)
      (auto simp: bit_and_iff bit_or_iff bit_not_iff RWLOCK_READERS_def bit_RWLOCK_WRITER)
qed

lemma only_writer:
  assumes "lock AND RWLOCK_WRITER \<noteq> 0" "lock AND RWLOCK_READERS = 0"
  shows "lock = RWLOCK_WRITER"
proof -
  from assms(1) have b: "bit lock 31" by (simp add: writer_clear_iff)
  have r: "\<not> bit lock n" if "n \<noteq> 31" "n < 32" for n
  proof
    assume "bit lock n"
    with that have "bit (lock AND RWLOCK_READERS) n"
      by (simp add: bit_and_iff bit_not_iff RWLOCK_READERS_def bit_RWLOCK_WRITER)
    with assms(2) show False by simp
  qed
  show ?thesis
    by (rule bit_word_eqI) (use b r in \<open>auto simp: bit_RWLOCK_WRITER\<close>)
qed

lemma unat_readers: "unat (lock AND RWLOCK_READERS) = unat lock mod 2 ^ 31"
proof -
  have "lock AND RWLOCK_READERS = take_bit 31 lock"
    by (simp only: RWLOCK_READERS_mask take_bit_eq_mask)
  then have "unat (lock AND RWLOCK_READERS) = take_bit 31 (unat lock)"
    by (simp only: unsigned_take_bit_eq)
  then show ?thesis by (simp only: take_bit_eq_mod)
qed

lemma readers_decremented:
  assumes "0 < unat (lock AND RWLOCK_READERS)"
  shows "((lock - 1) AND RWLOCK_WRITER = 0 \<longleftrightarrow> lock AND RWLOCK_WRITER = 0) \<and>
    unat ((lock - 1) AND RWLOCK_READERS) = unat (lock AND RWLOCK_READERS) - 1"
proof -
  let ?a = "unat lock"
  from assms have m: "0 < ?a mod 2 ^ 31" by (simp only: unat_readers)
  then have pos: "1 \<le> ?a" by (cases "?a = 0") simp_all
  then have "1 \<le> lock" by (simp add: word_le_nat_alt)
  then have u: "unat (lock - 1) = ?a - 1" by (simp add: unat_sub)
  have lt: "?a < 2 ^ 32" using unsigned_less [of lock] by simp
  have "?a < 2 ^ 31 \<or> (2 ^ 31 \<le> ?a \<and> ?a mod 2 ^ 31 = ?a - 2 ^ 31)"
  proof (cases "?a < 2 ^ 31")
    case False
    then have "?a mod 2 ^ 31 = (?a - 2 ^ 31) mod 2 ^ 31" by (simp add: le_mod_geq)
    also have "\<dots> = ?a - 2 ^ 31" using lt by simp
    finally show ?thesis using False by simp
  qed simp
  then have "(?a - 1 < 2 ^ 31 \<longleftrightarrow> ?a < 2 ^ 31) \<and> (?a - 1) mod 2 ^ 31 = ?a mod 2 ^ 31 - 1"
  proof
    assume "?a < 2 ^ 31"
    then show ?thesis using pos by simp
  next
    assume h: "2 ^ 31 \<le> ?a \<and> ?a mod 2 ^ 31 = ?a - 2 ^ 31"
    with m have gt: "2 ^ 31 < ?a" by simp
    then have "(?a - 1) mod 2 ^ 31 = (?a - 1 - 2 ^ 31) mod 2 ^ 31" by (simp add: le_mod_geq)
    also have "\<dots> = ?a - 1 - 2 ^ 31" using lt by simp
    finally show ?thesis using h gt by simp
  qed
  then show ?thesis by (simp only: writer_clear_less unat_readers u)
qed

lemma size_move: "p \<in># T \<Longrightarrow> size (move p p' T) = size T"
  by (simp add: move_def size_Suc_Diff1)

lemma count_move:
  "p \<in># T \<Longrightarrow> count (move p p' T) x =
     (if x = p' then 1 else 0) + (count T x - (if x = p then 1 else 0))"
  by (simp add: move_def)

lemma in_move:
  "p \<in># T \<Longrightarrow> x \<in># move p p' T \<longleftrightarrow>
     x = p' \<or> (if x = p then 1 < count T x else x \<in># T)"
  by (auto simp: move_def in_diff_count)

lemma count_other_le:
  assumes "p \<in># T" "p \<noteq> x"
  shows "count T x + 1 \<le> size T"
proof -
  have "count T x = count (T - {#p#}) x" using assms by simp
  also have "\<dots> \<le> size (T - {#p#})" by (rule count_le_size)
  also have "\<dots> = size T - 1" using assms(1) by (simp add: size_Diff_singleton)
  finally show ?thesis using assms(1) by (cases "size T") auto
qed

lemma exchange_True:
  "atomic_compare_exchange mem expected desired = (True, mem', expected') \<longleftrightarrow>
     mem = expected \<and> mem' = desired \<and> expected' = expected"
  by (auto simp: atomic_compare_exchange_def)

lemma lock_inv_rd_exchange:
  assumes inv: "lock_inv n (Running lock T)" and n: "n < 2 ^ 31"
    and p: "Rd_exchange l \<in># T"
    and x: "atomic_compare_exchange lock l (l + 1) = (True, lock', l')"
  shows "lock_inv n (Running lock' (move (Rd_exchange l) Reading T))"
proof -
  from x have e: "lock = l" "lock' = l + 1" by (simp_all add: exchange_True)
  from inv p have w: "l AND RWLOCK_WRITER = 0" by simp
  from inv have c: "unat (l AND RWLOCK_READERS) = count T Reading" and sz: "size T = n"
    by (simp_all add: e)
  from count_other_le [OF p, of Reading] have "count T Reading + 1 \<le> size T" by simp
  with c sz n have "unat (l AND RWLOCK_READERS) + 1 < 2 ^ 31" by simp
  from readers_incremented [OF w this]
  have w': "(l + 1) AND RWLOCK_WRITER = 0"
    and c': "unat ((l + 1) AND RWLOCK_READERS) = unat (l AND RWLOCK_READERS) + 1"
    by simp_all
  from inv w have z: "count T Wr_drain = 0" "count T Writing = 0" "count T Wr_store = 0"
    by (simp_all add: e)
  then have nz: "Writing \<notin># T" "Wr_store \<notin># T" by (simp_all add: count_eq_zero_iff)
  from inv have a: "\<forall>l. Rd_exchange l \<in># T \<or> Wr_exchange l \<in># T \<longrightarrow> l AND RWLOCK_WRITER = 0"
    by simp
  show ?thesis
    unfolding e lock_inv.simps
  proof (intro conjI allI impI)
    show "size (move (Rd_exchange l) Reading T) = n" using p sz by (simp add: size_move)
    show "unat ((l + 1) AND RWLOCK_READERS) = count (move (Rd_exchange l) Reading T) Reading"
      using p c c' by (simp add: count_move)
    show "(if (l + 1) AND RWLOCK_WRITER = 0 then 0 else 1) =
      count (move (Rd_exchange l) Reading T) Wr_drain +
      count (move (Rd_exchange l) Reading T) Writing +
      count (move (Rd_exchange l) Reading T) Wr_store"
      using p w' z by (simp add: count_move)
    show "(l + 1) AND RWLOCK_READERS = 0"
      if "Writing \<in># move (Rd_exchange l) Reading T \<or> Wr_store \<in># move (Rd_exchange l) Reading T"
      using that p nz by (simp add: in_move)
    show "k AND RWLOCK_WRITER = 0"
      if "Rd_exchange k \<in># move (Rd_exchange l) Reading T \<or>
          Wr_exchange k \<in># move (Rd_exchange l) Reading T" for k
      using that p a by (auto simp: in_move split: if_splits)
  qed
qed

lemma lock_inv_fetch_sub:
  assumes inv: "lock_inv n (Running lock T)" and p: "Reading \<in># T"
  shows "lock_inv n (Running (lock - 1) (move Reading (Rd_check lock) T))"
proof -
  from inv have c: "unat (lock AND RWLOCK_READERS) = count T Reading" and sz: "size T = n"
    by simp_all
  from p have pos: "0 < count T Reading" by (simp only: count_greater_zero_iff)
  with c have "0 < unat (lock AND RWLOCK_READERS)" by simp
  from readers_decremented [OF this]
  have w': "(lock - 1) AND RWLOCK_WRITER = 0 \<longleftrightarrow> lock AND RWLOCK_WRITER = 0"
    and c': "unat ((lock - 1) AND RWLOCK_READERS) = unat (lock AND RWLOCK_READERS) - 1"
    by simp_all
  from inv have s: "(if lock AND RWLOCK_WRITER = 0 then 0 else 1) =
      count T Wr_drain + count T Writing + count T Wr_store" by simp
  have "lock AND RWLOCK_READERS \<noteq> 0"
  proof
    assume "lock AND RWLOCK_READERS = 0"
    then have "unat (lock AND RWLOCK_READERS) = 0" by simp
    with c pos show False by linarith
  qed
  with inv have nz: "Writing \<notin># T" "Wr_store \<notin># T" by auto
  from inv have a: "\<forall>l. Rd_exchange l \<in># T \<or> Wr_exchange l \<in># T \<longrightarrow> l AND RWLOCK_WRITER = 0"
    by simp
  show ?thesis
    unfolding lock_inv.simps
  proof (intro conjI allI impI)
    show "size (move Reading (Rd_check lock) T) = n" using p sz by (simp add: size_move)
    show "unat ((lock - 1) AND RWLOCK_READERS) = count (move Reading (Rd_check lock) T) Reading"
      using p c c' by (simp add: count_move)
    show "(if (lock - 1) AND RWLOCK_WRITER = 0 then 0 else 1) =
      count (move Reading (Rd_check lock) T) Wr_drain +
      count (move Reading (Rd_check lock) T) Writing +
      count (move Reading (Rd_check lock) T) Wr_store"
      using p s by (simp add: count_move w')
    show "(lock - 1) AND RWLOCK_READERS = 0"
      if "Writing \<in># move Reading (Rd_check lock) T \<or> Wr_store \<in># move Reading (Rd_check lock) T"
      using that p nz by (simp add: in_move)
    show "k AND RWLOCK_WRITER = 0"
      if "Rd_exchange k \<in># move Reading (Rd_check lock) T \<or>
          Wr_exchange k \<in># move Reading (Rd_check lock) T" for k
      using that p a by (auto simp: in_move split: if_splits)
  qed
qed

lemma lock_inv_wr_exchange:
  assumes inv: "lock_inv n (Running lock T)"
    and p: "Wr_exchange l \<in># T"
    and x: "atomic_compare_exchange lock l (l OR RWLOCK_WRITER) = (True, lock', l')"
  shows "lock_inv n (Running lock' (move (Wr_exchange l) Wr_drain T))"
proof -
  from x have e: "lock = l" "lock' = l OR RWLOCK_WRITER" by (simp_all add: exchange_True)
  from inv p have w: "l AND RWLOCK_WRITER = 0" by simp
  from inv have c: "unat (l AND RWLOCK_READERS) = count T Reading" and sz: "size T = n"
    by (simp_all add: e)
  from writer_set [OF w]
  have w': "(l OR RWLOCK_WRITER) AND RWLOCK_WRITER \<noteq> 0"
    and c': "(l OR RWLOCK_WRITER) AND RWLOCK_READERS = l AND RWLOCK_READERS"
    by simp_all
  from inv w have z: "count T Wr_drain = 0" "count T Writing = 0" "count T Wr_store = 0"
    by (simp_all add: e)
  then have nz: "Writing \<notin># T" "Wr_store \<notin># T" by (simp_all add: count_eq_zero_iff)
  from inv have a: "\<forall>l. Rd_exchange l \<in># T \<or> Wr_exchange l \<in># T \<longrightarrow> l AND RWLOCK_WRITER = 0"
    by simp
  show ?thesis
    unfolding e lock_inv.simps
  proof (intro conjI allI impI)
    show "size (move (Wr_exchange l) Wr_drain T) = n" using p sz by (simp add: size_move)
    show "unat ((l OR RWLOCK_WRITER) AND RWLOCK_READERS) =
        count (move (Wr_exchange l) Wr_drain T) Reading"
      using p c by (simp add: count_move c')
    show "(if (l OR RWLOCK_WRITER) AND RWLOCK_WRITER = 0 then 0 else 1) =
      count (move (Wr_exchange l) Wr_drain T) Wr_drain +
      count (move (Wr_exchange l) Wr_drain T) Writing +
      count (move (Wr_exchange l) Wr_drain T) Wr_store"
      using p w' z by (simp add: count_move)
    show "(l OR RWLOCK_WRITER) AND RWLOCK_READERS = 0"
      if "Writing \<in># move (Wr_exchange l) Wr_drain T \<or> Wr_store \<in># move (Wr_exchange l) Wr_drain T"
      using that p nz by (simp add: in_move)
    show "k AND RWLOCK_WRITER = 0"
      if "Rd_exchange k \<in># move (Wr_exchange l) Wr_drain T \<or>
          Wr_exchange k \<in># move (Wr_exchange l) Wr_drain T" for k
      using that p a by (auto simp: in_move split: if_splits)
  qed
qed

lemma lock_inv_wr_store:
  assumes inv: "lock_inv n (Running lock T)" and p: "Wr_store \<in># T"
  shows "lock_inv n (Running 0 (move Wr_store Idle T))"
proof -
  from inv have c: "unat (lock AND RWLOCK_READERS) = count T Reading" and sz: "size T = n"
    by simp_all
  from inv p have r0: "lock AND RWLOCK_READERS = 0" by simp
  with c have cr: "count T Reading = 0" by simp
  from p have pos: "0 < count T Wr_store" by (simp only: count_greater_zero_iff)
  from inv have s: "(if lock AND RWLOCK_WRITER = 0 then 0 else 1) =
      count T Wr_drain + count T Writing + count T Wr_store" by simp
  then have le: "count T Wr_drain + count T Writing + count T Wr_store \<le> 1"
    by (simp split: if_splits)
  from pos have "1 \<le> count T Wr_store" by linarith
  with le have z: "count T Wr_drain = 0" "count T Writing = 0" "count T Wr_store = 1"
    by linarith+
  then have nz: "Writing \<notin># T" by (simp add: count_eq_zero_iff)
  from inv have a: "\<forall>l. Rd_exchange l \<in># T \<or> Wr_exchange l \<in># T \<longrightarrow> l AND RWLOCK_WRITER = 0"
    by simp
  show ?thesis
    unfolding lock_inv.simps
  proof (intro conjI allI impI)
    show "size (move Wr_store Idle T) = n" using p sz by (simp add: size_move)
    show "unat ((0 :: 32 word) AND RWLOCK_READERS) = count (move Wr_store Idle T) Reading"
      using p cr by (simp add: count_move)
    show "(if (0 :: 32 word) AND RWLOCK_WRITER = 0 then 0 else 1) =
      count (move Wr_store Idle T) Wr_drain +
      count (move Wr_store Idle T) Writing +
      count (move Wr_store Idle T) Wr_store"
      using p z by (simp add: count_move)
    show "(0 :: 32 word) AND RWLOCK_READERS = 0" by simp
    show "k AND RWLOCK_WRITER = 0"
      if "Rd_exchange k \<in># move Wr_store Idle T \<or>
          Wr_exchange k \<in># move Wr_store Idle T" for k
      using that p a by (auto simp: in_move split: if_splits)
  qed
qed

lemma lock_inv_wr_check:
  assumes inv: "lock_inv n (Running lock T)" and p: "Writing \<in># T"
  shows "lock_inv n (Running lock (move Writing Wr_store T))"
proof -
  from inv have c: "unat (lock AND RWLOCK_READERS) = count T Reading" and sz: "size T = n"
    by simp_all
  from inv p have r0: "lock AND RWLOCK_READERS = 0" by simp
  from p have "0 < count T Writing" by (simp only: count_greater_zero_iff)
  then have pos: "1 \<le> count T Writing" by linarith
  from inv have s: "(if lock AND RWLOCK_WRITER = 0 then 0 else 1) =
      count T Wr_drain + count T Writing + count T Wr_store" by simp
  from inv have a: "\<forall>l. Rd_exchange l \<in># T \<or> Wr_exchange l \<in># T \<longrightarrow> l AND RWLOCK_WRITER = 0"
    by simp
  show ?thesis
    unfolding lock_inv.simps
  proof (intro conjI allI impI)
    show "size (move Writing Wr_store T) = n" using p sz by (simp add: size_move)
    show "unat (lock AND RWLOCK_READERS) = count (move Writing Wr_store T) Reading"
      using p c by (simp add: count_move)
    have "count (move Writing Wr_store T) Wr_drain + count (move Writing Wr_store T) Writing +
        count (move Writing Wr_store T) Wr_store =
      count T Wr_drain + count T Writing + count T Wr_store"
      using p pos by (simp add: count_move)
    with s show "(if lock AND RWLOCK_WRITER = 0 then 0 else 1) =
      count (move Writing Wr_store T) Wr_drain +
      count (move Writing Wr_store T) Writing +
      count (move Writing Wr_store T) Wr_store"
      by (simp only:)
    show "lock AND RWLOCK_READERS = 0" by (rule r0)
    show "k AND RWLOCK_WRITER = 0"
      if "Rd_exchange k \<in># move Writing Wr_store T \<or>
          Wr_exchange k \<in># move Writing Wr_store T" for k
      using that p a by (auto simp: in_move split: if_splits)
  qed
qed

lemma step_lock_inv:
  assumes st: "rwlock_step s s'" and inv: "lock_inv n s" and n: "n < 2 ^ 31"
  shows "lock_inv n s'"
  using st
proof (cases rule: rwlock_step.cases)
  case (call_acquire_rd T lock)
  with inv show ?thesis by (simp add: size_move count_move in_move)
next
  case (rd_wait_for_no T lock)
  with inv show ?thesis by (simp add: size_move count_move in_move)
next
  case (rd_exchange l T lock lock' l')
  with inv n show ?thesis by (simp only: lock_inv_rd_exchange)
next
  case (rd_exchange_failed l T lock)
  with inv show ?thesis by (simp add: size_move count_move in_move)
next
  case (release_rd_fetch_sub T lock)
  with inv show ?thesis by (simp only: lock_inv_fetch_sub)
next
  case (release_rd_return prevl T lock)
  with inv show ?thesis by (simp add: size_move count_move in_move)
next
  case (release_rd_abort prevl T lock)
  then show ?thesis by simp
next
  case (call_acquire_wr T lock)
  with inv show ?thesis by (simp add: size_move count_move in_move)
next
  case (wr_wait_for_no T lock)
  with inv show ?thesis by (simp add: size_move count_move in_move)
next
  case (wr_exchange l T lock lock' l')
  with inv show ?thesis by (simp only: lock_inv_wr_exchange)
next
  case (wr_exchange_failed l T lock)
  with inv show ?thesis by (simp add: size_move count_move in_move)
next
  case (wr_drain T lock)
  with inv show ?thesis by (simp add: size_move count_move in_move)
next
  case (release_wr_check T lock)
  with inv show ?thesis by (simp only: lock_inv_wr_check)
next
  case (release_wr_abort T lock)
  then show ?thesis by simp
next
  case (release_wr_store T lock)
  with inv show ?thesis by (simp only: lock_inv_wr_store)
qed

lemma lock_inv_initial: "lock_inv n (rwlock_initial n)"
  by (simp add: rwlock_initial_def p64_rwlock_init_def)

lemma reachable_lock_inv:
  assumes "rwlock_step\<^sup>*\<^sup>* (rwlock_initial n) s" "n < 2 ^ 31"
  shows "lock_inv n s"
  using assms(1)
proof (induction rule: rtranclp_induct)
  case base
  show ?case by (rule lock_inv_initial)
next
  case (step y z)
  from step.hyps(2) step.IH assms(2) show ?case by (rule step_lock_inv)
qed

text \<open>
  C6 (amended): in every running state reachable by an interleaving of the four calls
  of fewer than \<open>2^31\<close> threads on an initialised lock (each thread releasing what it
  has acquired), the reader count is the number of threads that hold the lock for
  reading, the writer bit is set exactly when some thread has set it in
  \<open>p64_rwlock_acquire_wr\<close> and not yet cleared it in \<open>p64_rwlock_release_wr\<close>, there is
  at most one such thread, the word is exactly the writer bit whenever a thread holds
  the lock for writing, and the writer bit is set beside a non-zero reader count only
  while that writer is still waiting inside \<open>p64_rwlock_acquire_wr\<close> for the readers
  to leave.
\<close>

theorem p64_rwlock_reachable_invariant:
  assumes "rwlock_step\<^sup>*\<^sup>* (rwlock_initial n) (Running lock T)" and "n < 2 ^ 31"
  shows "unat (lock AND RWLOCK_READERS) = count T Reading \<and>
     (lock AND RWLOCK_WRITER \<noteq> 0 \<longleftrightarrow> Wr_drain \<in># T \<or> Writing \<in># T \<or> Wr_store \<in># T) \<and>
     count T Wr_drain + count T Writing + count T Wr_store \<le> 1 \<and>
     (Writing \<in># T \<or> Wr_store \<in># T \<longrightarrow> lock = RWLOCK_WRITER) \<and>
     (lock AND RWLOCK_WRITER \<noteq> 0 \<and> lock AND RWLOCK_READERS \<noteq> 0 \<longrightarrow> Wr_drain \<in># T)"
proof -
  from assms have inv: "lock_inv n (Running lock T)" by (rule reachable_lock_inv)
  then have c: "unat (lock AND RWLOCK_READERS) = count T Reading" by simp
  from inv have s: "(if lock AND RWLOCK_WRITER = 0 then 0 else 1) =
      count T Wr_drain + count T Writing + count T Wr_store" by simp
  from inv have h: "Writing \<in># T \<or> Wr_store \<in># T \<longrightarrow> lock AND RWLOCK_READERS = 0" by simp
  from s have le: "count T Wr_drain + count T Writing + count T Wr_store \<le> 1"
    by (simp split: if_splits)
  have w: "lock AND RWLOCK_WRITER \<noteq> 0 \<longleftrightarrow> Wr_drain \<in># T \<or> Writing \<in># T \<or> Wr_store \<in># T"
  proof (cases "lock AND RWLOCK_WRITER = 0")
    case True
    with s have "count T Wr_drain = 0" "count T Writing = 0" "count T Wr_store = 0"
      by simp_all
    then have "Wr_drain \<notin># T" "Writing \<notin># T" "Wr_store \<notin># T"
      by (simp_all add: count_eq_zero_iff)
    with True show ?thesis by simp
  next
    case False
    with s have "count T Wr_drain + count T Writing + count T Wr_store = 1" by simp
    then have "count T Wr_drain \<noteq> 0 \<or> count T Writing \<noteq> 0 \<or> count T Wr_store \<noteq> 0"
      by linarith
    then have "Wr_drain \<in># T \<or> Writing \<in># T \<or> Wr_store \<in># T"
      by (simp only: count_eq_zero_iff not_not)
    with False show ?thesis by simp
  qed
  have hw: "lock = RWLOCK_WRITER" if "Writing \<in># T \<or> Wr_store \<in># T"
  proof (rule only_writer)
    from that w show "lock AND RWLOCK_WRITER \<noteq> 0" by blast
    from that h show "lock AND RWLOCK_READERS = 0" by blast
  qed
  have d: "Wr_drain \<in># T" if "lock AND RWLOCK_WRITER \<noteq> 0 \<and> lock AND RWLOCK_READERS \<noteq> 0"
    using that w h by blast
  from c w le hw d show ?thesis by blast
qed

lemma example_interleaving:
  "rwlock_step\<^sup>*\<^sup>* (rwlock_initial 2) (Running 0x80000001 {#Wr_drain, Reading#})"
proof -
  have i: "rwlock_initial 2 = Running 0 {#Idle, Idle#}"
    by (simp add: rwlock_initial_def p64_rwlock_init_def numeral_2_eq_2)
  have "rwlock_step (Running 0 {#Idle, Idle#}) (Running 0 {#Rd_wait, Idle#})"
    using call_acquire_rd [of "{#Idle, Idle#}" 0] by (simp add: move_def)
  moreover have "rwlock_step (Running 0 {#Rd_wait, Idle#}) (Running 0 {#Rd_exchange 0, Idle#})"
    using rd_wait_for_no [of "{#Rd_wait, Idle#}" 0] by (simp add: move_def)
  moreover have "rwlock_step (Running 0 {#Rd_exchange 0, Idle#}) (Running 1 {#Reading, Idle#})"
    using rd_exchange [of 0 "{#Rd_exchange 0, Idle#}" 0 1 0]
    by (simp add: move_def atomic_compare_exchange_def)
  moreover have "rwlock_step (Running 1 {#Reading, Idle#}) (Running 1 {#Wr_wait, Reading#})"
    using call_acquire_wr [of "{#Reading, Idle#}" 1] by (simp add: move_def)
  moreover have "rwlock_step (Running 1 {#Wr_wait, Reading#}) (Running 1 {#Wr_exchange 1, Reading#})"
    using wr_wait_for_no [of "{#Wr_wait, Reading#}" 1]
    by (simp add: move_def RWLOCK_WRITER_def)
  moreover have "rwlock_step (Running 1 {#Wr_exchange 1, Reading#})
      (Running 0x80000001 {#Wr_drain, Reading#})"
    using wr_exchange [of 1 "{#Wr_exchange 1, Reading#}" 1 "0x80000001" 1]
    by (simp add: move_def atomic_compare_exchange_def RWLOCK_WRITER_def)
  ultimately show ?thesis unfolding i by (meson rtranclp.rtrancl_into_rtrancl rtranclp.rtrancl_refl)
qed

text \<open>
  C6 (as stated): in every state reachable by an interleaving of the four calls on an
  initialised lock, either the writer bit is set and the reader count is zero, or the
  writer bit is clear. With two threads, one acquires the lock for reading, then the
  other, in \<open>p64_rwlock_acquire_wr\<close>, reads the word 1 and exchanges it for
  \<open>0x80000001\<close>: the writer bit is set beside a reader count of one, while the writer
  waits for the reader to leave.
\<close>

theorem p64_rwlock_writer_with_readers:
  "rwlock_step\<^sup>*\<^sup>* (rwlock_initial 2) (Running 0x80000001 {#Wr_drain, Reading#}) \<and>
   \<not> writer_excludes_readers 0x80000001"
  using example_interleaving
  by (simp add: writer_excludes_readers_def RWLOCK_WRITER_def RWLOCK_READERS_def)

theorem p64_rwlock_reachable_invariant_witness:
  "rwlock_step\<^sup>*\<^sup>* (rwlock_initial 2) (Running 0x80000001 {#Wr_drain, Reading#}) \<and>
   (2 :: nat) < 2 ^ 31 \<and>
   unat ((0x80000001 :: 32 word) AND RWLOCK_READERS) = count {#Wr_drain, Reading#} Reading \<and>
   (0x80000001 :: 32 word) AND RWLOCK_WRITER \<noteq> 0 \<and>
   (0x80000001 :: 32 word) AND RWLOCK_READERS \<noteq> 0 \<and>
   Wr_drain \<in># {#Wr_drain, Reading#}"
  using p64_rwlock_reachable_invariant [OF example_interleaving] example_interleaving
  by (simp add: RWLOCK_WRITER_def RWLOCK_READERS_def)

section \<open>Allocation and release of the buffer: properties\<close>

lemma or_flags_nonzero:
  fixes rb :: "64 word"
  assumes "rb \<noteq> 0"
  shows "rb OR x OR y \<noteq> 0"
proof
  assume "rb OR x OR y = 0"
  then have "rb OR (x OR y) = 0" by (simp add: or.assoc)
  then have "rb = 0" by (simp only: or_eq_0_iff)
  with assms show False by simp
qed

lemma has_both_flags:
  "flags AND (a OR b) = a OR b \<longleftrightarrow> has_flag flags a \<and> has_flag flags b"
  unfolding has_flag_def
  by (auto simp: bit_eq_iff bit_and_iff bit_or_iff)

lemma code_flag_test:
  "(flags AND NOT (SUPPORTED_FLAGS F) \<noteq> 0 \<or>
    flags AND (P64_RINGBUF_F_SPENQ F OR P64_RINGBUF_F_NBENQ F) =
      P64_RINGBUF_F_SPENQ F OR P64_RINGBUF_F_NBENQ F \<or>
    flags AND (P64_RINGBUF_F_SCDEQ F OR P64_RINGBUF_F_NBDEQ F) =
      P64_RINGBUF_F_SCDEQ F OR P64_RINGBUF_F_NBDEQ F \<or>
    flags AND (P64_RINGBUF_F_SCDEQ F OR P64_RINGBUF_F_LFDEQ F) =
      P64_RINGBUF_F_SCDEQ F OR P64_RINGBUF_F_LFDEQ F \<or>
    flags AND (P64_RINGBUF_F_NBDEQ F OR P64_RINGBUF_F_LFDEQ F) =
      P64_RINGBUF_F_NBDEQ F OR P64_RINGBUF_F_LFDEQ F)
   \<longleftrightarrow> invalid_flags F flags"
  unfolding invalid_flags_def has_both_flags by (rule refl)

text \<open>\<open>nelems\<close> is a \<open>uint32_t\<close>: the test against \<open>MAXELEMS\<close> never fires.\<close>

lemma nelems_test:
  "(nelems = 0 \<or> nelems > MAXELEMS) \<longleftrightarrow> (nelems = 0 \<or> 2 ^ 32 - 1 < unat nelems)"
proof -
  have "unat nelems < 2 ^ 32" using unsigned_less [of nelems] by simp
  then have a: "\<not> 2 ^ 32 - 1 < unat nelems" by simp
  have max: "MAXELEMS = - 1" by (simp add: MAXELEMS_def)
  have "nelems \<le> MAXELEMS" unfolding max by (rule word_n1_ge)
  then have "\<not> nelems > MAXELEMS" by simp
  with a show ?thesis by simp
qed

lemma p64_ringbuf_alloc_cases:
  fixes m :: "64 word \<times> 'a p64_ringbuf"
  shows "p64_ringbuf_alloc F nelems flags esize m heap =
     (if nelems = 0 \<or> 2 ^ 32 - 1 < unat nelems
      then ([(''ringbuf'', ''invalid number of elements'', ucast nelems)], 0, heap)
      else if invalid_flags F flags
      then ([(''ringbuf'', ''invalid flags'', ucast flags)], 0, heap)
      else if fst m = 0 then ([], 0, heap)
      else ([], fst m OR push_bit 3 (ucast (alloc_cons_flags F flags))
                  OR ucast (alloc_prod_flags F flags),
            heap (fst m \<mapsto> alloc_object nelems (snd m))))"
  unfolding p64_ringbuf_alloc_def nelems_test Let_def code_flag_test
    alloc_prod_flags_def alloc_cons_flags_def alloc_object_def
  by (simp split: prod.splits)

lemma bit_mask3: "(p :: 32 word) AND mask 3 = p \<Longrightarrow> bit p n \<Longrightarrow> n < 3"
  by (metis bit_and_iff bit_mask_iff)

text \<open>The mode bits and the address come back out of a handle on an aligned block.\<close>

lemma handle_decode:
  fixes a :: "64 word" and p c :: "32 word"
  assumes a: "a AND 0x3F = 0" and p: "p AND mask 3 = p" and c: "c AND mask 3 = c"
  shows "PROD_FLAGS (a OR push_bit 3 (ucast c) OR ucast p) = p"
    and "CONS_FLAGS (a OR push_bit 3 (ucast c) OR ucast p) = c"
    and "RB (a OR push_bit 3 (ucast c) OR ucast p) = a"
proof -
  have m6: "(0x3F :: 64 word) = mask 6" by (simp add: mask_eq_exp_minus_1)
  have m3: "(7 :: 64 word) = mask 3" by (simp add: mask_eq_exp_minus_1)
  have an: "\<not> bit a n" if "n < 6" for n
  proof
    assume "bit a n"
    with that have "bit (a AND mask 6) n" by (simp add: bit_and_iff bit_mask_iff)
    with a show False by (simp add: m6)
  qed
  note pb = bit_mask3 [OF p] and cb = bit_mask3 [OF c]
  show "PROD_FLAGS (a OR push_bit 3 (ucast c) OR ucast p) = p"
    unfolding PROD_FLAGS_def FLAG_MASK_def m3
    by (rule bit_word_eqI) (auto simp: bit_simps an dest: pb)
  show "CONS_FLAGS (a OR push_bit 3 (ucast c) OR ucast p) = c"
    unfolding CONS_FLAGS_def FLAG_MASK_def m3
    by (rule bit_word_eqI) (auto simp: bit_simps an dest: pb cb)
  show "RB (a OR push_bit 3 (ucast c) OR ucast p) = a"
    unfolding RB_def m6
    by (rule bit_word_eqI) (auto simp: bit_simps an dest: pb cb)
qed

lemma alloc_prod_flags_mask: "alloc_prod_flags F flags AND mask 3 = alloc_prod_flags F flags"
  by (simp add: alloc_prod_flags_def FLAG_NONBLK_def FLAG_BLK_def mask_eq_exp_minus_1)

lemma alloc_cons_flags_mask: "alloc_cons_flags F flags AND mask 3 = alloc_cons_flags F flags"
  by (simp add: alloc_cons_flags_def FLAG_NONBLK_def FLAG_BLK_def FLAG_LOCKFREE_def
      mask_eq_exp_minus_1)

text \<open>
  C1: \<open>p64_ringbuf_alloc\<close> returns NULL and reports an error exactly when \<open>nelems\<close> is 0
  or above \<open>2^32 - 1\<close>, or the flags hold an unsupported bit or a mutually exclusive
  pair (SPENQ with NBENQ, SCDEQ with NBDEQ, SCDEQ with LFDEQ, NBDEQ with LFDEQ);
  on every other input, when the allocator returns a block, the handle is not NULL
  (and nothing is reported).
\<close>

theorem p64_ringbuf_alloc_validation:
  fixes m :: "64 word \<times> 'a p64_ringbuf"
  shows
    "(fst (snd (p64_ringbuf_alloc F nelems flags esize m heap)) = 0 \<and>
      fst (p64_ringbuf_alloc F nelems flags esize m heap) \<noteq> []
        \<longleftrightarrow> nelems = 0 \<or> 2 ^ 32 - 1 < unat nelems \<or> invalid_flags F flags) \<and>
     (\<not> (nelems = 0 \<or> 2 ^ 32 - 1 < unat nelems \<or> invalid_flags F flags) \<and> fst m \<noteq> 0
        \<longrightarrow> fst (snd (p64_ringbuf_alloc F nelems flags esize m heap)) \<noteq> 0 \<and>
            fst (p64_ringbuf_alloc F nelems flags esize m heap) = [])"
  by (simp add: p64_ringbuf_alloc_cases or_flags_nonzero)

theorem p64_ringbuf_alloc_validation_witness:
  "fst (snd (p64_ringbuf_alloc example_flags 0 3 8 (0x1000, fresh_block) Map.empty)) = 0 \<and>
   fst (p64_ringbuf_alloc example_flags 0 3 8 (0x1000, fresh_block) Map.empty) \<noteq> [] \<and>
   fst (snd (p64_ringbuf_alloc example_flags 4 5 8 (0x1000, fresh_block) Map.empty)) = 0 \<and>
   fst (p64_ringbuf_alloc example_flags 4 5 8 (0x1000, fresh_block) Map.empty) \<noteq> [] \<and>
   fst (snd (p64_ringbuf_alloc example_flags 4 3 8 (0x1000, fresh_block) Map.empty)) \<noteq> 0 \<and>
   fst (p64_ringbuf_alloc example_flags 4 3 8 (0x1000, fresh_block) Map.empty) = []"
  using
    p64_ringbuf_alloc_validation [of example_flags 0 3 8 "(0x1000, fresh_block)" Map.empty]
    p64_ringbuf_alloc_validation [of example_flags 4 5 8 "(0x1000, fresh_block)" Map.empty]
    p64_ringbuf_alloc_validation [of example_flags 4 3 8 "(0x1000, fresh_block)" Map.empty]
  by (simp add: invalid_flags_def has_flag_def SUPPORTED_FLAGS_def example_flags_def)

text \<open>
  C10: \<open>p64_ringbuf_free(NULL)\<close> returns with no report made, no buffer read and the
  store as it was.
\<close>

theorem p64_ringbuf_free_null: "p64_ringbuf_free 0 heap = Inr ([], heap)"
  by (simp add: p64_ringbuf_free_def)

text \<open>
  C9: for a handle that is not NULL, of a buffer in the store, \<open>p64_ringbuf_free\<close>
  reports "ring buffer not empty" and leaves the store as it was exactly when
  \<open>prod.head.cur\<close> differs from \<open>cons.head.cur\<close>; when they are equal, nothing is
  reported and the buffer is freed.
\<close>

theorem p64_ringbuf_free_not_empty:
  assumes "rb \<noteq> 0" and "heap (RB rb) = Some obj"
  shows
    "(p64_ringbuf_free rb heap = Inr ([(''ringbuf'', ''ring buffer not empty'', RB rb)], heap)
        \<longleftrightarrow> cur (head (prod_ep obj)) \<noteq> cur (head (cons_ep obj))) \<and>
     (cur (head (prod_ep obj)) = cur (head (cons_ep obj))
        \<longrightarrow> p64_ringbuf_free rb heap = Inr ([], heap(RB rb := None)))"
  using assms by (simp add: p64_ringbuf_free_def)

theorem p64_ringbuf_free_not_empty_witness:
  "p64_ringbuf_free 0x1009
     [0x1000 \<mapsto> fresh_block \<lparr> prod_mask := 3 \<rparr>]
     = Inr ([], [0x1000 \<mapsto> fresh_block \<lparr> prod_mask := 3 \<rparr>] (0x1000 := None)) \<and>
   p64_ringbuf_free 0x1009
     [0x1000 \<mapsto> fresh_block \<lparr> cons_ep := \<lparr> head = \<lparr> cur = 8, pend = 0 \<rparr>, tail = 0, capacity = 0 \<rparr> \<rparr>]
     = Inr ([(''ringbuf'', ''ring buffer not empty'', 0x1000)],
         [0x1000 \<mapsto> fresh_block \<lparr> cons_ep := \<lparr> head = \<lparr> cur = 8, pend = 0 \<rparr>, tail = 0, capacity = 0 \<rparr> \<rparr>])"
  using
    p64_ringbuf_free_not_empty [where rb = "0x1009"
      and heap = "[0x1000 \<mapsto> fresh_block \<lparr> prod_mask := 3 \<rparr>]"
      and obj = "fresh_block \<lparr> prod_mask := 3 \<rparr>"]
    p64_ringbuf_free_not_empty [where rb = "0x1009"
      and heap = "[0x1000 \<mapsto> fresh_block \<lparr> cons_ep := \<lparr> head = \<lparr> cur = 8, pend = 0 \<rparr>, tail = 0, capacity = 0 \<rparr> \<rparr>]"
      and obj = "fresh_block \<lparr> cons_ep := \<lparr> head = \<lparr> cur = 8, pend = 0 \<rparr>, tail = 0, capacity = 0 \<rparr> \<rparr>"]
  by (simp add: RB_def fresh_block_def)

section \<open>Releasing slots: properties\<close>

lemma LOWER_idxpair [simp]: "LOWER (idxpair_to_u64 p) = cur p"
  unfolding LOWER_def idxpair_to_u64_def TOUPPER_def
  by (rule bit_word_eqI) (auto simp: bit_simps)

lemma UPPER_idxpair [simp]: "UPPER (idxpair_to_u64 p) = pend p"
  unfolding UPPER_def idxpair_to_u64_def TOUPPER_def
  by (rule bit_word_eqI) (auto simp: bit_simps dest: bit_imp_le_length)

lemma u64_to_idxpair_inverse [simp]: "u64_to_idxpair (idxpair_to_u64 p) = p"
  by (simp add: u64_to_idxpair_def)

lemma idxpair_to_u64_inverse [simp]: "idxpair_to_u64 (u64_to_idxpair w) = w"
  unfolding u64_to_idxpair_def idxpair_to_u64_def LOWER_def UPPER_def TOUPPER_def
  by (rule bit_word_eqI) (auto simp: bit_simps)


lemma word_of_nat_take_bit_64: "(word_of_nat (take_bit 64 n) :: 32 word) = word_of_nat n"
  unfolding word_of_nat_eq_iff take_bit_take_bit by simp

lemma ucast_down_add: "(ucast (a + b :: 64 word) :: 32 word) = ucast a + ucast b"
proof -
  have "(ucast (a + b) :: 32 word) = word_of_nat (unat (a + b))" by simp
  also have "unat (a + b) = take_bit 64 (unat a + unat b)"
    by (simp add: unat_word_ariths take_bit_eq_mod)
  also have "(word_of_nat (take_bit 64 (unat a + unat b)) :: 32 word) = word_of_nat (unat a + unat b)"
    by (rule word_of_nat_take_bit_64)
  also have "\<dots> = ucast a + ucast b" by simp
  finally show ?thesis .
qed

lemma ucast_up_down [simp]: "(ucast (ucast (w :: 32 word) :: 64 word) :: 32 word) = w"
  by (rule bit_word_eqI) (auto simp: bit_simps)



lemma bit_slot_bits: "bit (slot_bits off n) k \<longleftrightarrow> off \<le> k \<and> k < off + n \<and> k < 32"
  by (auto simp: slot_bits_def bit_simps)

lemma ourpend_eq: "(push_bit off (2 ^ n - 1) :: 32 word) = slot_bits off n"
  by (simp add: slot_bits_def mask_eq_exp_minus_1)

lemma trailing_ones_le: "trailing_ones w \<le> 32"
  unfolding trailing_ones_def using length_takeWhile_le [of "bit w" "[0..<32]"] by simp

lemma trailing_ones_bit: "k < trailing_ones w \<Longrightarrow> bit w k"
proof -
  assume a: "k < trailing_ones w"
  then have "takeWhile (bit w) [0..<32] ! k \<in> set (takeWhile (bit w) [0..<32])"
    unfolding trailing_ones_def by (rule nth_mem)
  then have "bit w (takeWhile (bit w) [0..<32] ! k)" by (rule set_takeWhileD [THEN conjunct2])
  moreover have "takeWhile (bit w) [0..<32] ! k = [0..<32] ! k"
    using a unfolding trailing_ones_def by (rule takeWhile_nth)
  moreover have "k < 32" using a trailing_ones_le [of w] by simp
  ultimately show ?thesis by simp
qed

lemma trailing_ones_stop: "\<not> bit w (trailing_ones w)"
proof (cases "trailing_ones w < 32")
  case True
  then have "\<not> bit w ([0..<32] ! trailing_ones w)"
    unfolding trailing_ones_def using nth_length_takeWhile [of "bit w" "[0..<32]"] by simp
  with True show ?thesis by simp
next
  case False
  then have "trailing_ones w \<ge> LENGTH(32)" by simp
  then show ?thesis using bit_imp_le_length [of w "trailing_ones w"] by auto
qed

lemma builtin_ctzl_not: "builtin_ctzl (NOT (ucast (w :: 32 word))) = trailing_ones w"
proof -
  let ?P = "\<lambda>i. \<not> bit (NOT (ucast w :: 64 word)) i"
  have P: "?P i \<longleftrightarrow> bit w i" if "i < 64" for i
    using that by (auto simp: bit_simps dest: bit_imp_le_length)
  have "[0..<32 + 32] = [0..<32] @ [32..<32 + 32]"
    by (rule upt_add_eq_append) simp
  moreover have "[32..<32 + 32] = 32 # [33..<64]" by (subst upt_rec) simp
  ultimately have split: "[0..<64] = [0..<32] @ 32 # [33..<64]" by simp
  have "\<not> ?P 32" using bit_imp_le_length [of w 32] by (auto simp: bit_simps)
  then have "takeWhile ?P [0..<64] = takeWhile ?P [0..<32]"
    unfolding split by (rule takeWhile_tail)
  also have "\<dots> = takeWhile (bit w) [0..<32]"
    by (rule takeWhile_cong) (auto simp: P)
  finally show ?thesis by (simp add: builtin_ctzl_def trailing_ones_def)
qed

lemma not_ucast_nonzero: "NOT (ucast (w :: 32 word) :: 64 word) \<noteq> 0"
proof
  assume "NOT (ucast w :: 64 word) = 0"
  then have "bit (NOT (ucast w :: 64 word)) 32 = bit (0 :: 64 word) 32" by simp
  then show False using bit_imp_le_length [of w 32] by (auto simp: bit_simps)
qed


lemma unat_of_nat_small: "t \<le> 32 \<Longrightarrow> unat (of_nat t :: 32 word) = t"
  by (simp add: unat_of_nat)

lemma drop_bit_ucast_up: "drop_bit t (ucast (w :: 32 word) :: 64 word) = ucast (drop_bit t w)"
  by (rule bit_word_eqI) (auto simp: bit_simps dest: bit_imp_le_length)

lemma release_pending_update_eq:
  fixes p :: idxpair and idx n :: "32 word"
  defines "np \<equiv> pend p OR slot_bits (unat (idx - cur p)) (unat n)"
  assumes n1: "1 \<le> unat n" and n: "unat n < 32"
    and fit: "unat n + unat (idx - cur p) \<le> 32"
    and disjoint: "pend p AND slot_bits (unat (idx - cur p)) (unat n) = 0"
  shows "release_pending_update (idxpair_to_u64 p) idx n =
    Inr (idxpair_to_u64 \<lparr> cur = cur p + of_nat (trailing_ones np),
                           pend = drop_bit (trailing_ones np) np \<rparr>)"
proof -
  let ?off = "idx - cur p"
  let ?t = "trailing_ones np"
  have a1: "n < PENDMAX" using n by (simp add: PENDMAX_def word_less_nat_alt)
  have "unat n + unat ?off < 2 ^ LENGTH(32)" using fit by simp
  then have "unat (n + ?off) = unat n + unat ?off" by (simp only: unat_add_lem)
  then have a2: "n + ?off \<le> PENDMAX" using fit by (simp add: PENDMAX_def word_le_nat_alt)
  have a3: "?off < 32" using n1 fit by (simp add: word_less_nat_alt)
  have t32: "?t \<le> 32" by (rule trailing_ones_le)
  have a5: "(of_nat ?t :: 32 word) \<le> PENDMAX"
    using t32 by (simp add: PENDMAX_def word_le_nat_alt unat_of_nat_small)
  have low: "TOLOWER (idxpair_to_u64 p + ucast (of_nat ?t :: 32 word)) = cur p + of_nat ?t"
    unfolding TOLOWER_def ucast_down_add using LOWER_idxpair [of p] by (simp add: LOWER_def)
  have neu: "ucast (cur p + of_nat ?t) OR TOUPPER (drop_bit ?t (ucast np))
      = idxpair_to_u64 \<lparr> cur = cur p + of_nat ?t, pend = drop_bit ?t np \<rparr>"
    by (simp add: idxpair_to_u64_def drop_bit_ucast_up)
  have "\<not> bit (drop_bit ?t np) 0" using trailing_ones_stop [of np] by (simp add: bit_simps)
  then have a6: "drop_bit ?t np AND 1 = 0"
    by (simp add: and_one_eq bit_0 mod2_eq_if)
  show ?thesis
    unfolding release_pending_update_def Let_def
    using a1 a2 a3 a5 a6 disjoint
    by (simp add: ourpend_eq builtin_ctzl_not not_ucast_nonzero np_def [symmetric]
        unat_of_nat_small [OF t32] low neu)
qed

lemma wait_until_equal_Some:
  assumes "wait_until_equal_w_bkoff c idx = Some y"
  shows "c = idx"
  by (rule wait_until_equal_w_bkoff.raw_induct [OF _ assms, where P = "\<lambda>c i y. c = i"])
    (auto split: if_splits)

lemma wait_until_equal_w_bkoff_eq:
  "wait_until_equal_w_bkoff c idx = (if c = idx then Some () else None)"
proof (cases "c = idx")
  case True
  then show ?thesis by (subst wait_until_equal_w_bkoff.simps) simp
next
  case False
  with wait_until_equal_Some [of c idx] show ?thesis
    by (cases "wait_until_equal_w_bkoff c idx") auto
qed

lemma idxpair_to_u64_inj: "idxpair_to_u64 p = idxpair_to_u64 q \<longleftrightarrow> p = q"
  by (metis u64_to_idxpair_inverse)

lemma idxpair_to_u64_inorder: "idxpair_to_u64 \<lparr> cur = c, pend = 0 \<rparr> = ucast c"
  by (simp add: idxpair_to_u64_def TOUPPER_def)

lemma release_inorder_attempt_eq:
  "release_inorder_attempt (idxpair_to_u64 loc) idx n =
     (if loc = \<lparr> cur = idx, pend = 0 \<rparr> then Released (idxpair_to_u64 \<lparr> cur = idx + n, pend = 0 \<rparr>)
      else if idx + n - cur loc \<le> PENDMAX then Pending (idxpair_to_u64 loc)
      else Doze)"
proof -
  have a: "ucast idx = idxpair_to_u64 \<lparr> cur = idx, pend = 0 \<rparr>" for idx
    by (simp add: idxpair_to_u64_inorder)
  show ?thesis
    unfolding release_inorder_attempt_def Let_def atomic_compare_exchange_def a idxpair_to_u64_inj
    by simp
qed

lemma release_inorder_loop_Some:
  assumes "release_inorder_loop loc idx n = Some r"
  shows "release_inorder_attempt loc idx n = r \<and> r \<noteq> Doze"
  by (rule release_inorder_loop.raw_induct [OF _ assms,
        where P = "\<lambda>loc idx n r. release_inorder_attempt loc idx n = r \<and> r \<noteq> Doze"])
    (auto split: inorder_result.splits)

lemma release_inorder_loop_eq:
  "release_inorder_loop loc idx n =
     (case release_inorder_attempt loc idx n of Doze \<Rightarrow> None | r \<Rightarrow> Some r)"
proof (cases "release_inorder_attempt loc idx n = Doze")
  case True
  with release_inorder_loop_Some [of loc idx n] show ?thesis
    by (cases "release_inorder_loop loc idx n") auto
next
  case False
  then show ?thesis
    by (subst release_inorder_loop.simps) (simp split: inorder_result.splits)
qed

lemma release_pending_loop_same:
  "release_pending_loop loc loc idx n = release_pending_update loc idx n"
  by (subst release_pending_loop.simps)
    (simp add: atomic_compare_exchange_def split: sum.splits)

lemma release_pending_loop_retry:
  "old \<noteq> loc \<Longrightarrow> release_pending_update old idx n = Inr neu \<Longrightarrow>
    release_pending_loop loc old idx n = release_pending_loop loc loc idx n"
  by (subst release_pending_loop.simps) (simp add: atomic_compare_exchange_def)

lemma release_slots_unflagged:
  "flags AND FLAG_NONBLK = 0 \<Longrightarrow> flags AND FLAG_BLK = 0 \<Longrightarrow>
    release_slots loc idx n lo flags = Some (Inr (loc \<lparr> cur := idx + n \<rparr>))"
  by (simp add: release_slots_def)

lemma release_slots_blk:
  "flags AND FLAG_NONBLK = 0 \<Longrightarrow> flags AND FLAG_BLK \<noteq> 0 \<Longrightarrow>
    release_slots loc idx n lo flags =
      (if cur loc = idx then Some (Inr (loc \<lparr> cur := idx + n \<rparr>)) else None)"
  by (simp add: release_slots_def wait_until_equal_w_bkoff_eq)

lemma release_slots_nonblk_inorder:
  "flags AND FLAG_NONBLK \<noteq> 0 \<Longrightarrow>
    release_slots \<lparr> cur = idx, pend = 0 \<rparr> idx n lo flags = Some (Inr \<lparr> cur = idx + n, pend = 0 \<rparr>)"
  by (simp add: release_slots_def wait_until_equal_w_bkoff_eq release_inorder_loop_eq
      release_inorder_attempt_eq)

lemma release_slots_in_turn:
  "release_slots \<lparr> cur = idx, pend = 0 \<rparr> idx n lo flags = Some (Inr \<lparr> cur = idx + n, pend = 0 \<rparr>)"
  by (cases "flags AND FLAG_NONBLK = 0")
    (simp_all add: release_slots_nonblk_inorder, simp add: release_slots_def wait_until_equal_w_bkoff_eq)

lemma acquire_slots_mtsafe_eq:
  "acquire_slots_mtsafe ep msk n =
     (let act = MIN' n (sint (capacity ep + cur (head ep) - tail ep)) in
      if act \<le> 0 then (\<lparr> index = 0, actual = 0, mask' = 0 \<rparr>, ep)
      else (\<lparr> index = tail ep, actual = word_of_int act, mask' = msk \<rparr>,
            ep \<lparr> tail := tail ep + word_of_int act \<rparr>))"
  unfolding acquire_slots_mtsafe_def
  by (subst acquire_slots_mtsafe_loop.simps) (simp add: atomic_compare_exchange_def Let_def)

lemma MIN'_ge: "n \<le> x \<Longrightarrow> MIN' n x = n"
  by (simp add: MIN'_def)

lemma flag_tests:
  "FLAG_NONBLK AND (FLAG_BLK OR FLAG_NONBLK) \<noteq> 0"
  "FLAG_NONBLK AND FLAG_NONBLK \<noteq> 0"
  "FLAG_NONBLK AND FLAG_BLK = 0"
  "FLAG_BLK AND (FLAG_BLK OR FLAG_NONBLK) \<noteq> 0"
  "FLAG_BLK AND FLAG_NONBLK = 0"
  "FLAG_BLK AND FLAG_BLK \<noteq> 0"
  "FLAG_NONBLK \<noteq> 0"
  "FLAG_BLK \<noteq> 0"
  by (simp_all add: FLAG_NONBLK_def FLAG_BLK_def)

text \<open>
  C4: a non-blocking release of \<open>n\<close> slots at \<open>idx\<close> on a quiescent cell
  (\<open>cur = idx\<close>, \<open>pend = 0\<close>, no other releaser) succeeds at the first, in-order
  exchange for any \<open>n\<close>: the first loop returns, so the pending-bitmap branch is not
  entered. Hence an enqueue of \<open>PENDMAX + 1 = 33\<close> elements by a single caller on a
  quiescent non-blocking ring with room for them returns 33 in one call, although
  the pending branch would fail its assertion \<open>n < PENDMAX\<close> for such a release.
\<close>

theorem release_slots_nonblk_quiescent:
  "(flags AND FLAG_NONBLK \<noteq> 0 \<longrightarrow>
      release_inorder_loop (idxpair_to_u64 \<lparr> cur = idx, pend = 0 \<rparr>) idx n =
        Some (Released (idxpair_to_u64 \<lparr> cur = idx + n, pend = 0 \<rparr>)) \<and>
      release_slots \<lparr> cur = idx, pend = 0 \<rparr> idx n loads_only flags =
        Some (Inr \<lparr> cur = idx + n, pend = 0 \<rparr>)) \<and>
   (PROD_FLAGS hdl = FLAG_NONBLK \<and>
    head (cons_ep rb) = \<lparr> cur = tail (prod_ep rb), pend = 0 \<rparr> \<and>
    33 \<le> sint (capacity (prod_ep rb) + cur (head (prod_ep rb)) - tail (prod_ep rb)) \<longrightarrow>
      (\<exists>rb'. p64_ringbuf_enqueue hdl rb ev 33 = Some (Inr (33, rb')) \<and>
         head (cons_ep rb') = \<lparr> cur = tail (prod_ep rb) + 33, pend = 0 \<rparr> \<and>
         tail (prod_ep rb') = tail (prod_ep rb) + 33)) \<and>
   release_pending_update old idx 33 = Inl (Assert_failed ''n < PENDMAX'')"
proof (intro conjI impI)
  assume "flags AND FLAG_NONBLK \<noteq> 0"
  then show "release_slots \<lparr> cur = idx, pend = 0 \<rparr> idx n loads_only flags =
        Some (Inr \<lparr> cur = idx + n, pend = 0 \<rparr>)"
    by (rule release_slots_nonblk_inorder)
next
  show "release_inorder_loop (idxpair_to_u64 \<lparr> cur = idx, pend = 0 \<rparr>) idx n =
        Some (Released (idxpair_to_u64 \<lparr> cur = idx + n, pend = 0 \<rparr>))"
    by (simp add: release_inorder_loop_eq release_inorder_attempt_eq)
next
  show "release_pending_update old idx 33 = Inl (Assert_failed ''n < PENDMAX'')"
    by (simp add: release_pending_update_def PENDMAX_def)
next
  assume a: "PROD_FLAGS hdl = FLAG_NONBLK \<and>
    head (cons_ep rb) = \<lparr> cur = tail (prod_ep rb), pend = 0 \<rparr> \<and>
    33 \<le> sint (capacity (prod_ep rb) + cur (head (prod_ep rb)) - tail (prod_ep rb))"
  then have m: "MIN' 33 (sint (capacity (prod_ep rb) + cur (head (prod_ep rb)) - tail (prod_ep rb))) = 33"
    by (simp add: MIN'_ge)
  from a show "\<exists>rb'. p64_ringbuf_enqueue hdl rb ev 33 = Some (Inr (33, rb')) \<and>
         head (cons_ep rb') = \<lparr> cur = tail (prod_ep rb) + 33, pend = 0 \<rparr> \<and>
         tail (prod_ep rb') = tail (prod_ep rb) + 33"
    by (simp add: p64_ringbuf_enqueue_def Let_def flag_tests acquire_slots_mtsafe_eq m
        release_slots_nonblk_inorder)
qed

lemma alloc_cons_lockfree:
  "alloc_cons_flags F flags AND FLAG_LOCKFREE \<noteq> 0 \<longleftrightarrow> flags AND P64_RINGBUF_F_LFDEQ F \<noteq> 0"
  by (simp add: alloc_cons_flags_def FLAG_LOCKFREE_def FLAG_NONBLK_def FLAG_BLK_def)

lemma p64_ringbuf_alloc_handle:
  fixes m :: "64 word \<times> 'a p64_ringbuf"
  assumes "fst (snd (p64_ringbuf_alloc F nelems flags esize m heap)) = hdl"
    and "hdl \<noteq> 0" and "fst m AND 0x3F = 0"
  shows "PROD_FLAGS hdl = alloc_prod_flags F flags"
    and "CONS_FLAGS hdl = alloc_cons_flags F flags"
    and "RB hdl = fst m"
    and "snd (snd (p64_ringbuf_alloc F nelems flags esize m heap)) (RB hdl)
          = Some (alloc_object nelems (snd m))"
    and "nelems \<noteq> 0" and "\<not> invalid_flags F flags"
proof -
  from assms(1,2) have ok: "\<not> (nelems = 0 \<or> 2 ^ 32 - 1 < unat nelems)" "\<not> invalid_flags F flags" "fst m \<noteq> 0"
    by (auto simp: p64_ringbuf_alloc_cases split: if_splits)
  then have h: "hdl = fst m OR push_bit 3 (ucast (alloc_cons_flags F flags))
                  OR ucast (alloc_prod_flags F flags)"
    using assms(1) by (simp add: p64_ringbuf_alloc_cases)
  note d = handle_decode [OF assms(3) alloc_prod_flags_mask alloc_cons_flags_mask, of F flags F flags]
  show "PROD_FLAGS hdl = alloc_prod_flags F flags" unfolding h by (rule d)
  show "CONS_FLAGS hdl = alloc_cons_flags F flags" unfolding h by (rule d)
  show r: "RB hdl = fst m" unfolding h by (rule d)
  show "snd (snd (p64_ringbuf_alloc F nelems flags esize m heap)) (RB hdl)
          = Some (alloc_object nelems (snd m))"
    unfolding r using ok by (simp add: p64_ringbuf_alloc_cases)
  show "nelems \<noteq> 0" "\<not> invalid_flags F flags" using ok by simp_all
qed

lemma release_slots_true:
  "(case release_slots loc idx n lo flags of
      None \<Rightarrow> None
    | Some (Inl f) \<Rightarrow> Some (Inl f)
    | Some (Inr loc') \<Rightarrow> Some (Inr (True, g loc'))) = Some (Inr (ok, rb')) \<Longrightarrow> ok"
  by (auto split: option.splits sum.splits)

text \<open>
  C8: for a buffer allocated with LFDEQ, \<open>p64_ringbuf_release_(rb, r, false)\<close> returns
  true exactly when its exchange of \<open>prod.head.cur\<close> from \<open>r.index\<close> to
  \<open>r.index + r.actual\<close> succeeds, and that exchange is its only update of the buffer;
  in every other mode, and on the enqueue side, a call that returns returns true,
  and it does return when it is the caller's turn on the cell.
\<close>

theorem p64_ringbuf_release_lockfree:
  fixes m :: "64 word \<times> 'a p64_ringbuf" and rb :: "'a p64_ringbuf"
  assumes "fst (snd (p64_ringbuf_alloc F nelems flags esize m heap)) = hdl"
    and "hdl \<noteq> 0" and "fst m AND 0x3F = 0"
  shows
    "(flags AND P64_RINGBUF_F_LFDEQ F \<noteq> 0 \<longrightarrow>
        p64_ringbuf_release' hdl rb r False spurious =
          Some (Inr (\<not> spurious \<and> cur (head (prod_ep rb)) = index r,
                     if \<not> spurious \<and> cur (head (prod_ep rb)) = index r
                     then rb \<lparr> prod_ep := (prod_ep rb)
                            \<lparr> head := (head (prod_ep rb)) \<lparr> cur := index r + actual r \<rparr> \<rparr> \<rparr>
                     else rb))) \<and>
     (flags AND P64_RINGBUF_F_LFDEQ F = 0 \<or> enqueue \<longrightarrow>
        (\<forall>ok rb'. p64_ringbuf_release' hdl rb r enqueue spurious = Some (Inr (ok, rb')) \<longrightarrow> ok) \<and>
        ((if enqueue then head (cons_ep rb) else head (prod_ep rb)) = \<lparr> cur = index r, pend = 0 \<rparr> \<longrightarrow>
           (\<exists>rb'. p64_ringbuf_release' hdl rb r enqueue spurious = Some (Inr (True, rb')))))"
proof -
  note h = p64_ringbuf_alloc_handle [OF assms]
  have lf: "CONS_FLAGS hdl AND FLAG_LOCKFREE \<noteq> 0 \<longleftrightarrow> flags AND P64_RINGBUF_F_LFDEQ F \<noteq> 0"
    unfolding h(2) by (rule alloc_cons_lockfree)
  have 1: "p64_ringbuf_release' hdl rb r False spurious =
          Some (Inr (\<not> spurious \<and> cur (head (prod_ep rb)) = index r,
                     if \<not> spurious \<and> cur (head (prod_ep rb)) = index r
                     then rb \<lparr> prod_ep := (prod_ep rb)
                            \<lparr> head := (head (prod_ep rb)) \<lparr> cur := index r + actual r \<rparr> \<rparr> \<rparr>
                     else rb))"
    if "flags AND P64_RINGBUF_F_LFDEQ F \<noteq> 0"
    using that lf
    by (simp add: p64_ringbuf_release'_def Let_def atomic_compare_exchange_weak_def
        atomic_compare_exchange_def)
  have 2: "ok" if "p64_ringbuf_release' hdl rb r enqueue spurious = Some (Inr (ok, rb'))"
    and "flags AND P64_RINGBUF_F_LFDEQ F = 0 \<or> enqueue" for ok rb'
    using that lf
    by (auto simp: p64_ringbuf_release'_def Let_def split: if_splits option.splits sum.splits
        bind_splits)
  have 3: "\<exists>rb'. p64_ringbuf_release' hdl rb r enqueue spurious = Some (Inr (True, rb'))"
    if "flags AND P64_RINGBUF_F_LFDEQ F = 0 \<or> enqueue"
    and "(if enqueue then head (cons_ep rb) else head (prod_ep rb)) = \<lparr> cur = index r, pend = 0 \<rparr>"
    using that lf
    by (auto simp: p64_ringbuf_release'_def Let_def release_slots_in_turn split: if_splits)
  from 1 2 3 show ?thesis by blast
qed


lemma release_slots_nonblk:
  assumes "flags AND FLAG_NONBLK \<noteq> 0"
  shows "release_slots loc idx n lo flags =
     (if flags AND FLAG_BLK \<noteq> 0 \<and> cur loc \<noteq> idx then None
      else if loc = \<lparr> cur = idx, pend = 0 \<rparr> then Some (Inr \<lparr> cur = idx + n, pend = 0 \<rparr>)
      else if PENDMAX < idx + n - cur loc then None
      else (case release_pending_update (idxpair_to_u64 loc) idx n of
              Inl f \<Rightarrow> Some (Inl f)
            | Inr neu \<Rightarrow> Some (Inr (u64_to_idxpair neu))))"
  using assms
  by (simp add: release_slots_def wait_until_equal_w_bkoff_eq release_inorder_loop_eq
      release_inorder_attempt_eq release_pending_loop_same not_le)

lemma pending_window:
  fixes idx n c :: "32 word"
  assumes "unat n + unat (idx - c) \<le> 32"
  shows "\<not> PENDMAX < idx + n - c"
proof -
  have e: "idx + n - c = n + (idx - c)" by simp
  from assms have "unat n + unat (idx - c) < 2 ^ 32" by simp
  then have "unat (n + (idx - c)) = unat n + unat (idx - c)" by (simp add: unat_word_ariths)
  with assms show ?thesis unfolding e by (simp add: word_less_nat_alt PENDMAX_def)
qed

text \<open>
  C3: the non-blocking release of \<open>n\<close> slots at \<open>idx\<close> on the cell \<open>loc = {cur, pend}\<close>.
  An iteration of the first loop exchanges \<open>{idx, 0}\<close> for \<open>{idx + n, 0}\<close> and is done
  on success; on failure it dozes and retries while \<open>(idx + n) - cur > PENDMAX\<close> (alone,
  for ever) and otherwise goes on to the pending path. There, under the code's
  assertions, the bits \<open>[idx - cur, idx - cur + n)\<close> are added to \<open>pend\<close>, \<open>inorder\<close>
  is the number of trailing ones of the new mask, and one exchange installs
  \<open>cur + inorder\<close> with the mask shifted right by \<open>inorder\<close>. So \<open>release_slots\<close> with
  \<open>FLAG_NONBLK\<close> leaves \<open>{idx + n, 0}\<close> in the cell \<open>{idx, 0}\<close>, does not return from a
  cell more than \<open>PENDMAX\<close> behind the end of its range, and in every other cell
  leaves what the pending path installs, \<open>{cur + inorder, newpend >> inorder}\<close>; with
  \<open>n \<ge> PENDMAX\<close> the pending path stops at its first assertion. (With \<open>FLAG_BLK\<close> set
  as well, the release first waits for \<open>cur = idx\<close>.)
\<close>

theorem release_slots_nonblk_steps:
  fixes loc :: idxpair and idx n :: "32 word"
  shows
    "release_inorder_attempt (idxpair_to_u64 loc) idx n =
       (if loc = \<lparr> cur = idx, pend = 0 \<rparr>
        then Released (idxpair_to_u64 \<lparr> cur = idx + n, pend = 0 \<rparr>)
        else if PENDMAX < idx + n - cur loc then Doze
        else Pending (idxpair_to_u64 loc)) \<and>
     (release_inorder_attempt (idxpair_to_u64 loc) idx n = Doze \<longrightarrow>
        release_inorder_loop (idxpair_to_u64 loc) idx n = None) \<and>
     (flags AND FLAG_NONBLK \<noteq> 0 \<longrightarrow>
        (flags AND FLAG_BLK \<noteq> 0 \<and> cur loc \<noteq> idx \<longrightarrow>
           release_slots loc idx n loads_only flags = None) \<and>
        (loc = \<lparr> cur = idx, pend = 0 \<rparr> \<longrightarrow>
           release_slots loc idx n loads_only flags = Some (Inr \<lparr> cur = idx + n, pend = 0 \<rparr>)) \<and>
        ((flags AND FLAG_BLK \<noteq> 0 \<longrightarrow> cur loc = idx) \<and> loc \<noteq> \<lparr> cur = idx, pend = 0 \<rparr> \<longrightarrow>
           (PENDMAX < idx + n - cur loc \<longrightarrow>
              release_slots loc idx n loads_only flags = None) \<and>
           (\<not> PENDMAX < idx + n - cur loc \<longrightarrow>
              release_slots loc idx n loads_only flags =
                (case release_pending_loop (idxpair_to_u64 loc) (idxpair_to_u64 loc) idx n of
                   Inl f \<Rightarrow> Some (Inl f)
                 | Inr neu \<Rightarrow> Some (Inr (u64_to_idxpair neu)))) \<and>
           (\<not> PENDMAX < idx + n - cur loc \<and> \<not> n < PENDMAX \<longrightarrow>
              release_slots loc idx n loads_only flags =
                Some (Inl (Assert_failed ''n < PENDMAX''))))) \<and>
     (1 \<le> unat n \<and> unat n < 32 \<and> unat n + unat (idx - cur loc) \<le> 32 \<and>
      pend loc AND slot_bits (unat (idx - cur loc)) (unat n) = 0 \<longrightarrow>
        (let newpend = pend loc OR slot_bits (unat (idx - cur loc)) (unat n);
             inorder = trailing_ones newpend;
             neu = idxpair_to_u64 \<lparr> cur = cur loc + of_nat inorder, pend = drop_bit inorder newpend \<rparr>
         in release_pending_update (idxpair_to_u64 loc) idx n = Inr neu \<and>
            release_pending_loop (idxpair_to_u64 loc) (idxpair_to_u64 loc) idx n = Inr neu \<and>
            (flags AND FLAG_NONBLK \<noteq> 0 \<and> (flags AND FLAG_BLK \<noteq> 0 \<longrightarrow> cur loc = idx) \<and>
             loc \<noteq> \<lparr> cur = idx, pend = 0 \<rparr> \<longrightarrow>
               release_slots loc idx n loads_only flags =
                 Some (Inr \<lparr> cur = cur loc + of_nat inorder, pend = drop_bit inorder newpend \<rparr>)) \<and>
            (\<forall>k<32. bit (slot_bits (unat (idx - cur loc)) (unat n)) k \<longleftrightarrow>
               unat (idx - cur loc) \<le> k \<and> k < unat (idx - cur loc) + unat n) \<and>
            (\<forall>k<inorder. bit newpend k) \<and> \<not> bit newpend inorder))"
proof -
  let ?np = "pend loc OR slot_bits (unat (idx - cur loc)) (unat n)"
  let ?neu = "\<lparr> cur = cur loc + of_nat (trailing_ones ?np), pend = drop_bit (trailing_ones ?np) ?np \<rparr>"
  have 1: "release_inorder_attempt (idxpair_to_u64 loc) idx n =
       (if loc = \<lparr> cur = idx, pend = 0 \<rparr>
        then Released (idxpair_to_u64 \<lparr> cur = idx + n, pend = 0 \<rparr>)
        else if PENDMAX < idx + n - cur loc then Doze
        else Pending (idxpair_to_u64 loc))"
    by (simp add: release_inorder_attempt_eq not_less)
  have 2: "release_inorder_loop (idxpair_to_u64 loc) idx n = None"
    if "release_inorder_attempt (idxpair_to_u64 loc) idx n = Doze"
    using that by (simp add: release_inorder_loop_eq)
  have 3: "release_slots loc idx n loads_only flags = None"
    if "flags AND FLAG_NONBLK \<noteq> 0" "flags AND FLAG_BLK \<noteq> 0 \<and> cur loc \<noteq> idx"
    using that by (simp add: release_slots_nonblk)
  have 4: "release_slots loc idx n loads_only flags = Some (Inr \<lparr> cur = idx + n, pend = 0 \<rparr>)"
    if "flags AND FLAG_NONBLK \<noteq> 0" "loc = \<lparr> cur = idx, pend = 0 \<rparr>"
    using that by (simp add: release_slots_nonblk)
  have 5: "release_slots loc idx n loads_only flags = None"
    if "flags AND FLAG_NONBLK \<noteq> 0" "flags AND FLAG_BLK \<noteq> 0 \<longrightarrow> cur loc = idx"
      "loc \<noteq> \<lparr> cur = idx, pend = 0 \<rparr>" "PENDMAX < idx + n - cur loc"
    using that by (auto simp: release_slots_nonblk)
  have 6: "release_slots loc idx n loads_only flags =
      (case release_pending_loop (idxpair_to_u64 loc) (idxpair_to_u64 loc) idx n of
         Inl f \<Rightarrow> Some (Inl f)
       | Inr neu \<Rightarrow> Some (Inr (u64_to_idxpair neu)))"
    if "flags AND FLAG_NONBLK \<noteq> 0" "flags AND FLAG_BLK \<noteq> 0 \<longrightarrow> cur loc = idx"
      "loc \<noteq> \<lparr> cur = idx, pend = 0 \<rparr>" "\<not> PENDMAX < idx + n - cur loc"
    using that by (auto simp: release_slots_nonblk release_pending_loop_same)
  have 7: "release_slots loc idx n loads_only flags = Some (Inl (Assert_failed ''n < PENDMAX''))"
    if "flags AND FLAG_NONBLK \<noteq> 0" "flags AND FLAG_BLK \<noteq> 0 \<longrightarrow> cur loc = idx"
      "loc \<noteq> \<lparr> cur = idx, pend = 0 \<rparr>" "\<not> PENDMAX < idx + n - cur loc \<and> \<not> n < PENDMAX"
    using that by (auto simp: release_slots_nonblk release_pending_update_def)
  have 8: "release_pending_update (idxpair_to_u64 loc) idx n = Inr (idxpair_to_u64 ?neu) \<and>
      release_pending_loop (idxpair_to_u64 loc) (idxpair_to_u64 loc) idx n = Inr (idxpair_to_u64 ?neu) \<and>
      (flags AND FLAG_NONBLK \<noteq> 0 \<and> (flags AND FLAG_BLK \<noteq> 0 \<longrightarrow> cur loc = idx) \<and>
         loc \<noteq> \<lparr> cur = idx, pend = 0 \<rparr> \<longrightarrow>
           release_slots loc idx n loads_only flags = Some (Inr ?neu)) \<and>
      (\<forall>k<32. bit (slot_bits (unat (idx - cur loc)) (unat n)) k \<longleftrightarrow>
         unat (idx - cur loc) \<le> k \<and> k < unat (idx - cur loc) + unat n) \<and>
      (\<forall>k<trailing_ones ?np. bit ?np k) \<and> \<not> bit ?np (trailing_ones ?np)"
    if a: "1 \<le> unat n \<and> unat n < 32 \<and> unat n + unat (idx - cur loc) \<le> 32 \<and>
      pend loc AND slot_bits (unat (idx - cur loc)) (unat n) = 0"
  proof -
    from a have u: "release_pending_update (idxpair_to_u64 loc) idx n = Inr (idxpair_to_u64 ?neu)"
      by (intro release_pending_update_eq) simp_all
    from a have w: "\<not> PENDMAX < idx + n - cur loc" by (intro pending_window) simp
    have r: "release_slots loc idx n loads_only flags = Some (Inr ?neu)"
      if "flags AND FLAG_NONBLK \<noteq> 0" "flags AND FLAG_BLK \<noteq> 0 \<longrightarrow> cur loc = idx"
        "loc \<noteq> \<lparr> cur = idx, pend = 0 \<rparr>"
      using that w by (auto simp: release_slots_nonblk u)
    have b: "\<forall>k<32. bit (slot_bits (unat (idx - cur loc)) (unat n)) k \<longleftrightarrow>
         unat (idx - cur loc) \<le> k \<and> k < unat (idx - cur loc) + unat n"
      by (simp add: bit_slot_bits)
    have t: "(\<forall>k<trailing_ones ?np. bit ?np k) \<and> \<not> bit ?np (trailing_ones ?np)"
      by (simp add: trailing_ones_bit trailing_ones_stop)
    from u r b t show ?thesis unfolding release_pending_loop_same by blast
  qed
  have c2: "release_inorder_attempt (idxpair_to_u64 loc) idx n = Doze \<longrightarrow>
        release_inorder_loop (idxpair_to_u64 loc) idx n = None"
    using 2 by blast
  have c3: "flags AND FLAG_NONBLK \<noteq> 0 \<longrightarrow>
        (flags AND FLAG_BLK \<noteq> 0 \<and> cur loc \<noteq> idx \<longrightarrow>
           release_slots loc idx n loads_only flags = None) \<and>
        (loc = \<lparr> cur = idx, pend = 0 \<rparr> \<longrightarrow>
           release_slots loc idx n loads_only flags = Some (Inr \<lparr> cur = idx + n, pend = 0 \<rparr>)) \<and>
        ((flags AND FLAG_BLK \<noteq> 0 \<longrightarrow> cur loc = idx) \<and> loc \<noteq> \<lparr> cur = idx, pend = 0 \<rparr> \<longrightarrow>
           (PENDMAX < idx + n - cur loc \<longrightarrow>
              release_slots loc idx n loads_only flags = None) \<and>
           (\<not> PENDMAX < idx + n - cur loc \<longrightarrow>
              release_slots loc idx n loads_only flags =
                (case release_pending_loop (idxpair_to_u64 loc) (idxpair_to_u64 loc) idx n of
                   Inl f \<Rightarrow> Some (Inl f)
                 | Inr neu \<Rightarrow> Some (Inr (u64_to_idxpair neu)))) \<and>
           (\<not> PENDMAX < idx + n - cur loc \<and> \<not> n < PENDMAX \<longrightarrow>
              release_slots loc idx n loads_only flags =
                Some (Inl (Assert_failed ''n < PENDMAX''))))"
  proof (intro impI conjI)
    assume "flags AND FLAG_NONBLK \<noteq> 0" "flags AND FLAG_BLK \<noteq> 0 \<and> cur loc \<noteq> idx"
    then show "release_slots loc idx n loads_only flags = None" by (rule 3)
  next
    assume "flags AND FLAG_NONBLK \<noteq> 0" "loc = \<lparr> cur = idx, pend = 0 \<rparr>"
    then show "release_slots loc idx n loads_only flags = Some (Inr \<lparr> cur = idx + n, pend = 0 \<rparr>)"
      by (rule 4)
  next
    assume f: "flags AND FLAG_NONBLK \<noteq> 0"
      and t: "(flags AND FLAG_BLK \<noteq> 0 \<longrightarrow> cur loc = idx) \<and> loc \<noteq> \<lparr> cur = idx, pend = 0 \<rparr>"
      and w: "PENDMAX < idx + n - cur loc"
    from t have t1: "flags AND FLAG_BLK \<noteq> 0 \<longrightarrow> cur loc = idx"
      and t2: "loc \<noteq> \<lparr> cur = idx, pend = 0 \<rparr>" by blast+
    from f t1 t2 w show "release_slots loc idx n loads_only flags = None" by (rule 5)
  next
    assume f: "flags AND FLAG_NONBLK \<noteq> 0"
      and t: "(flags AND FLAG_BLK \<noteq> 0 \<longrightarrow> cur loc = idx) \<and> loc \<noteq> \<lparr> cur = idx, pend = 0 \<rparr>"
      and w: "\<not> PENDMAX < idx + n - cur loc"
    from t have t1: "flags AND FLAG_BLK \<noteq> 0 \<longrightarrow> cur loc = idx"
      and t2: "loc \<noteq> \<lparr> cur = idx, pend = 0 \<rparr>" by blast+
    from f t1 t2 w show "release_slots loc idx n loads_only flags =
                (case release_pending_loop (idxpair_to_u64 loc) (idxpair_to_u64 loc) idx n of
                   Inl f \<Rightarrow> Some (Inl f)
                 | Inr neu \<Rightarrow> Some (Inr (u64_to_idxpair neu)))" by (rule 6)
  next
    assume f: "flags AND FLAG_NONBLK \<noteq> 0"
      and t: "(flags AND FLAG_BLK \<noteq> 0 \<longrightarrow> cur loc = idx) \<and> loc \<noteq> \<lparr> cur = idx, pend = 0 \<rparr>"
      and w: "\<not> PENDMAX < idx + n - cur loc \<and> \<not> n < PENDMAX"
    from t have t1: "flags AND FLAG_BLK \<noteq> 0 \<longrightarrow> cur loc = idx"
      and t2: "loc \<noteq> \<lparr> cur = idx, pend = 0 \<rparr>" by blast+
    from f t1 t2 w show "release_slots loc idx n loads_only flags =
                Some (Inl (Assert_failed ''n < PENDMAX''))" by (rule 7)
  qed
  have c4: "1 \<le> unat n \<and> unat n < 32 \<and> unat n + unat (idx - cur loc) \<le> 32 \<and>
      pend loc AND slot_bits (unat (idx - cur loc)) (unat n) = 0 \<longrightarrow>
      release_pending_update (idxpair_to_u64 loc) idx n = Inr (idxpair_to_u64 ?neu) \<and>
      release_pending_loop (idxpair_to_u64 loc) (idxpair_to_u64 loc) idx n = Inr (idxpair_to_u64 ?neu) \<and>
      (flags AND FLAG_NONBLK \<noteq> 0 \<and> (flags AND FLAG_BLK \<noteq> 0 \<longrightarrow> cur loc = idx) \<and>
         loc \<noteq> \<lparr> cur = idx, pend = 0 \<rparr> \<longrightarrow>
           release_slots loc idx n loads_only flags = Some (Inr ?neu)) \<and>
      (\<forall>k<32. bit (slot_bits (unat (idx - cur loc)) (unat n)) k \<longleftrightarrow>
         unat (idx - cur loc) \<le> k \<and> k < unat (idx - cur loc) + unat n) \<and>
      (\<forall>k<trailing_ones ?np. bit ?np k) \<and> \<not> bit ?np (trailing_ones ?np)"
    using 8 by (rule impI)
  show ?thesis unfolding Let_def by (rule conjI [OF 1 conjI [OF c2 conjI [OF c3 c4]]])
qed

lemma trailing_ones_7: "trailing_ones 7 = 3"
  by code_simp

theorem release_slots_nonblk_steps_witness:
  "release_inorder_attempt (idxpair_to_u64 \<lparr> cur = 0, pend = 4 \<rparr>) 0 2 =
     Pending (idxpair_to_u64 \<lparr> cur = 0, pend = 4 \<rparr>) \<and>
   release_inorder_loop (idxpair_to_u64 \<lparr> cur = 0, pend = 0 \<rparr>) 40 2 = None \<and>
   release_pending_loop (idxpair_to_u64 \<lparr> cur = 0, pend = 4 \<rparr>)
     (idxpair_to_u64 \<lparr> cur = 0, pend = 4 \<rparr>) 0 2 = Inr (idxpair_to_u64 \<lparr> cur = 3, pend = 0 \<rparr>) \<and>
   release_slots \<lparr> cur = 0, pend = 4 \<rparr> 0 2 False FLAG_NONBLK = Some (Inr \<lparr> cur = 3, pend = 0 \<rparr>) \<and>
   release_slots \<lparr> cur = 0, pend = 0 \<rparr> 40 2 False FLAG_NONBLK = None \<and>
   release_slots \<lparr> cur = 5, pend = 0 \<rparr> 5 2 False FLAG_NONBLK = Some (Inr \<lparr> cur = 7, pend = 0 \<rparr>) \<and>
   release_slots \<lparr> cur = 0, pend = 4 \<rparr> 0 32 False FLAG_NONBLK =
     Some (Inl (Assert_failed ''n < PENDMAX''))"
proof -
  note A = release_slots_nonblk_steps [where loc = "\<lparr> cur = 0, pend = 4 \<rparr>" and idx = 0 and n = 2
      and flags = FLAG_NONBLK and loads_only = False]
  note B = release_slots_nonblk_steps [where loc = "\<lparr> cur = 0, pend = 0 \<rparr>" and idx = 40 and n = 2
      and flags = FLAG_NONBLK and loads_only = False]
  note C = release_slots_nonblk_steps [where loc = "\<lparr> cur = 5, pend = 0 \<rparr>" and idx = 5 and n = 2
      and flags = FLAG_NONBLK and loads_only = False]
  note D = release_slots_nonblk_steps [where loc = "\<lparr> cur = 0, pend = 4 \<rparr>" and idx = 0 and n = 32
      and flags = FLAG_NONBLK and loads_only = False]
  have f: "FLAG_NONBLK AND FLAG_NONBLK \<noteq> 0" "FLAG_NONBLK AND FLAG_BLK = 0"
    by (simp_all add: FLAG_NONBLK_def FLAG_BLK_def)
  from A have 1: "release_inorder_attempt (idxpair_to_u64 \<lparr> cur = 0, pend = 4 \<rparr>) 0 2 =
     Pending (idxpair_to_u64 \<lparr> cur = 0, pend = 4 \<rparr>)"
    by (simp add: PENDMAX_def)
  from B have 2: "release_inorder_loop (idxpair_to_u64 \<lparr> cur = 0, pend = 0 \<rparr>) 40 2 = None"
    by (simp add: PENDMAX_def)
  from A have 3: "release_pending_loop (idxpair_to_u64 \<lparr> cur = 0, pend = 4 \<rparr>)
     (idxpair_to_u64 \<lparr> cur = 0, pend = 4 \<rparr>) 0 2 = Inr (idxpair_to_u64 \<lparr> cur = 3, pend = 0 \<rparr>)"
    by (simp add: slot_bits_def mask_eq_exp_minus_1 trailing_ones_7 Let_def)
  from A have 4: "release_slots \<lparr> cur = 0, pend = 4 \<rparr> 0 2 False FLAG_NONBLK =
      Some (Inr \<lparr> cur = 3, pend = 0 \<rparr>)"
    by (simp add: PENDMAX_def slot_bits_def mask_eq_exp_minus_1 trailing_ones_7 Let_def f flag_tests)
  from B have 5: "release_slots \<lparr> cur = 0, pend = 0 \<rparr> 40 2 False FLAG_NONBLK = None"
    by (simp add: PENDMAX_def f flag_tests)
  from C have 6: "release_slots \<lparr> cur = 5, pend = 0 \<rparr> 5 2 False FLAG_NONBLK =
      Some (Inr \<lparr> cur = 7, pend = 0 \<rparr>)"
    by (simp add: PENDMAX_def f flag_tests)
  from D have 7: "release_slots \<lparr> cur = 0, pend = 4 \<rparr> 0 32 False FLAG_NONBLK =
     Some (Inl (Assert_failed ''n < PENDMAX''))"
    by (auto simp: PENDMAX_def f flag_tests)
  from 1 2 3 4 5 6 7 show ?thesis by (intro conjI)
qed

theorem release_slots_nonblk_quiescent_witness:
  "release_slots \<lparr> cur = 5, pend = 0 \<rparr> 5 33 False FLAG_NONBLK = Some (Inr \<lparr> cur = 38, pend = 0 \<rparr>) \<and>
   (\<exists>rb'. p64_ringbuf_enqueue 0x1004 (alloc_object 64 fresh_block) (\<lambda>i. i) 33 = Some (Inr (33, rb')) \<and>
      head (cons_ep rb') = \<lparr> cur = 33, pend = 0 \<rparr> \<and> tail (prod_ep rb') = 33)"
  using release_slots_nonblk_quiescent [of FLAG_NONBLK 5 33 False "0x1004" "alloc_object 64 fresh_block" "\<lambda>i. i"]
  by (simp add: PROD_FLAGS_def FLAG_MASK_def FLAG_NONBLK_def alloc_object_def)

lemma example_alloc_lockfree:
  "fst (snd (p64_ringbuf_alloc example_flags 4 16 8 (0x1000, fresh_block) Map.empty)) = 0x1019"
  by (simp add: p64_ringbuf_alloc_cases invalid_flags_def has_flag_def SUPPORTED_FLAGS_def
      example_flags_def alloc_cons_flags_def alloc_prod_flags_def
      FLAG_BLK_def FLAG_NONBLK_def FLAG_LOCKFREE_def)

lemma example_alloc_blocking:
  "fst (snd (p64_ringbuf_alloc example_flags 4 0 8 (0x1000, fresh_block) Map.empty)) = 0x1009"
  by (simp add: p64_ringbuf_alloc_cases invalid_flags_def has_flag_def SUPPORTED_FLAGS_def
      example_flags_def alloc_cons_flags_def alloc_prod_flags_def
      FLAG_BLK_def FLAG_NONBLK_def FLAG_LOCKFREE_def)

theorem p64_ringbuf_release_lockfree_witness:
  "p64_ringbuf_release' 0x1019 fresh_block \<lparr> index = 7, actual = 2, mask' = 7 \<rparr> False False =
     Some (Inr (True, fresh_block \<lparr> prod_ep := (prod_ep fresh_block)
        \<lparr> head := (head (prod_ep fresh_block)) \<lparr> cur := 9 \<rparr> \<rparr> \<rparr>)) \<and>
   p64_ringbuf_release' 0x1019 fresh_block \<lparr> index = 6, actual = 2, mask' = 7 \<rparr> False False =
     Some (Inr (False, fresh_block)) \<and>
   (\<exists>rb'. p64_ringbuf_release' 0x1009 (alloc_object 4 fresh_block)
      \<lparr> index = 0, actual = 2, mask' = 3 \<rparr> False False = Some (Inr (True, rb')))"
proof -
  have a: "(0x1019 :: 64 word) \<noteq> 0" "(0x1009 :: 64 word) \<noteq> 0"
    "fst (0x1000 :: 64 word, fresh_block) AND 0x3F = 0" by simp_all
  have c: "cur (head (prod_ep fresh_block)) = 7" by (simp add: fresh_block_def)
  have d: "head (prod_ep (alloc_object 4 fresh_block)) = \<lparr> cur = 0, pend = 0 \<rparr>"
    by (simp add: alloc_object_def)
  from p64_ringbuf_release_lockfree [OF example_alloc_lockfree a(1,3), where rb = fresh_block
      and r = "\<lparr> index = 7, actual = 2, mask' = 7 \<rparr>" and spurious = False and enqueue = False]
    p64_ringbuf_release_lockfree [OF example_alloc_lockfree a(1,3), where rb = fresh_block
      and r = "\<lparr> index = 6, actual = 2, mask' = 7 \<rparr>" and spurious = False and enqueue = False]
    p64_ringbuf_release_lockfree [OF example_alloc_blocking a(2,3),
      where rb = "alloc_object 4 fresh_block"
      and r = "\<lparr> index = 0, actual = 2, mask' = 3 \<rparr>" and spurious = False and enqueue = False]
  show ?thesis by (simp add: c d example_flags_def)
qed

section \<open>Copying payloads and the round trip: properties\<close>

lemma copy_voidptr_loop_eq:
  "copy_voidptr_loop dst d src s num i =
     (\<lambda>j. if d + i \<le> j \<and> j < d + num then src (s + (j - d)) else dst j)"
proof (induction dst d src s num i rule: copy_voidptr_loop.induct)
  case (1 dst d src s num i)
  show ?case
  proof (cases "i < num")
    case True
    have "copy_voidptr_loop dst d src s num i =
        copy_voidptr_loop (dst (d + i := src (s + i))) d src s num (i + 1)"
      using True by (subst copy_voidptr_loop.simps) simp
    also have "\<dots> = (\<lambda>j. if d + (i + 1) \<le> j \<and> j < d + num then src (s + (j - d))
        else (dst (d + i := src (s + i))) j)"
      by (rule "1.IH" [OF True])
    also have "\<dots> = (\<lambda>j. if d + i \<le> j \<and> j < d + num then src (s + (j - d)) else dst j)"
      using True by (auto simp: fun_eq_iff)
    finally show ?thesis .
  next
    case False
    then show ?thesis by (subst copy_voidptr_loop.simps) (auto simp: fun_eq_iff)
  qed
qed

lemma copy_voidptr_eq:
  "copy_voidptr dst d src s num =
     (\<lambda>j. if d \<le> j \<and> j < d + unat num then src (s + (j - d)) else dst j)"
  by (simp add: copy_voidptr_def copy_voidptr_loop_eq)

lemma unat_and_mask_le: "unat (i AND m) \<le> unat (m :: 32 word)"
  using word_and_le1 [of i m] by (simp add: word_le_nat_alt)

lemma unat_max32: "unat (- 1 :: 32 word) = 4294967295"
proof -
  have "(- 1 :: 32 word) = 4294967295" by simp
  then have "unat (- 1 :: 32 word) = unat (4294967295 :: 32 word)" by (rule arg_cong)
  then show ?thesis by simp
qed

lemma unat_seg0:
  fixes i m :: "32 word"
  shows "unat (m + 1 - (i AND m)) =
    (if m = - 1 \<and> i AND m = 0 then 0 else unat m + 1 - unat (i AND m))"
proof (cases "m = - 1")
  case True
  then have "unat (m + 1 - (i AND m)) = unat (0 - (i AND m))" by simp
  also have "\<dots> = (if unat (i AND m) \<le> 0 then 0 else 2 ^ 32 - unat (i AND m))"
    using unat_sub_if_size [of 0 "i AND m"] by (simp add: word_size)
  finally show ?thesis using True by (simp add: unat_eq_0 unat_max32)
next
  case False
  then have "unat m \<noteq> unat (- 1 :: 32 word)" by (simp only: word_unat_eq_iff not_False_eq_True)
  then have "unat m \<noteq> 2 ^ 32 - 1" by (simp add: unat_max32)
  moreover have "unat m < 2 ^ 32" using unsigned_less [of m] by simp
  ultimately have "unat m + 1 < 2 ^ 32" by simp
  then have a: "unat (m + 1) = unat m + 1" by (simp add: unat_word_ariths)
  have "i AND m \<le> m + 1" using unat_and_mask_le [of i m] a by (simp add: word_le_nat_alt)
  then have "unat (m + 1 - (i AND m)) = unat (m + 1) - unat (i AND m)" by (rule unat_sub)
  with a False show ?thesis by simp
qed

lemma unat_le_1: "(w :: 32 word) \<le> 1 \<longleftrightarrow> unat w \<le> 1"
  by (simp add: word_le_nat_alt)

lemma write_slots_nat:
  assumes "1 \<le> unat (actual r)" "unat (actual r) \<le> unat (mask' r) + 1"
  shows "write_slots rbring ev r =
    (\<lambda>j. if \<exists>k<unat (actual r). j = slot_of r k
         then ev (if unat (index r AND mask' r) \<le> j \<and> j < unat (index r AND mask' r) + unat (actual r)
                  then j - unat (index r AND mask' r)
                  else j + (unat (mask' r) + 1 - unat (index r AND mask' r)))
         else rbring j)"
proof -
  let ?im = "unat (index r AND mask' r)"
  let ?a = "unat (actual r)"
  let ?M = "unat (mask' r)"
  let ?seg = "mask' r + 1 - (index r AND mask' r)"
  have im: "?im \<le> ?M" by (rule unat_and_mask_le)
  have a32: "?a < 2 ^ 32" using unsigned_less [of "actual r"] by simp
  have M32: "?M < 2 ^ 32" using unsigned_less [of "mask' r"] by simp
  show ?thesis
  proof (cases "actual r \<le> 1")
    case True
    then have a1: "?a = 1" using assms(1) by (simp add: unat_le_1)
    with im show ?thesis
      using True by (auto simp: write_slots_def Let_def slot_of_def fun_eq_iff)
  next
    case False
    then have a2: "2 \<le> ?a" by (simp add: unat_le_1)
    show ?thesis
    proof (cases "mask' r = - 1 \<and> index r AND mask' r = 0")
      case wrap: True
      have S: "unat ?seg = 0" unfolding unat_seg0 by (simp only: if_P [OF wrap])
      then have seg0: "?seg = 0" by (simp add: unat_eq_0)
      from wrap have m1: "mask' r = - 1" by (rule conjunct1)
      from wrap have iz: "index r AND mask' r = 0" by (rule conjunct2)
      have M: "?M = 4294967295" unfolding m1 by (rule unat_max32)
      have i0: "?im = 0" unfolding iz by simp
      from a2 have nle: "\<not> actual r \<le> ?seg" unfolding seg0 by (auto simp: word_le_nat_alt)
      have "write_slots rbring ev r = (\<lambda>j. if j < ?a then ev j else rbring j)"
        using False nle
        by (simp add: write_slots_def Let_def copy_voidptr_eq seg0 i0 fun_eq_iff)
      also have "\<dots> = (\<lambda>j. if \<exists>k<?a. j = slot_of r k
         then ev (if ?im \<le> j \<and> j < ?im + ?a then j - ?im else j + (?M + 1 - ?im))
         else rbring j)"
        using a32 by (auto simp: fun_eq_iff slot_of_def Let_def i0 M)
      finally show ?thesis .
    next
      case nowrap: False
      have S: "unat ?seg = ?M + 1 - ?im" unfolding unat_seg0 by (simp only: if_not_P [OF nowrap])
      show ?thesis
      proof (cases "actual r \<le> ?seg")
        case one: True
        then have le: "?a \<le> ?M + 1 - ?im" by (simp add: word_le_nat_alt S)
        have "write_slots rbring ev r = (\<lambda>j. if ?im \<le> j \<and> j < ?im + ?a then ev (j - ?im) else rbring j)"
          using False one by (simp add: write_slots_def Let_def copy_voidptr_eq fun_eq_iff)
        also have "\<dots> = (\<lambda>j. if \<exists>k<?a. j = slot_of r k
           then ev (if ?im \<le> j \<and> j < ?im + ?a then j - ?im else j + (?M + 1 - ?im))
           else rbring j)"
        proof (rule ext)
          fix j
          have "(\<exists>k<?a. j = slot_of r k) \<longleftrightarrow> ?im \<le> j \<and> j < ?im + ?a"
          proof
            assume "\<exists>k<?a. j = slot_of r k"
            then obtain k where "k < ?a" "j = slot_of r k" by blast
            with le show "?im \<le> j \<and> j < ?im + ?a" by (auto simp: slot_of_def Let_def)
          next
            assume b: "?im \<le> j \<and> j < ?im + ?a"
            then have "j - ?im < ?a" "j = slot_of r (j - ?im)"
              using le by (auto simp: slot_of_def Let_def)
            then show "\<exists>k<?a. j = slot_of r k" by blast
          qed
          then show "(if ?im \<le> j \<and> j < ?im + ?a then ev (j - ?im) else rbring j) =
            (if \<exists>k<?a. j = slot_of r k
             then ev (if ?im \<le> j \<and> j < ?im + ?a then j - ?im else j + (?M + 1 - ?im))
             else rbring j)" by simp
        qed
        finally show ?thesis .
      next
        case two: False
        then have gt: "?M + 1 - ?im < ?a" by (simp add: word_le_nat_alt S)
        then have "?seg \<le> actual r" by (simp add: word_le_nat_alt S)
        then have sub: "unat (actual r - ?seg) = ?a - (?M + 1 - ?im)" by (simp add: unat_sub S)
        have "write_slots rbring ev r =
          (\<lambda>j. if j < ?a - (?M + 1 - ?im) then ev (?M + 1 - ?im + j)
               else if ?im \<le> j \<and> j < ?im + (?M + 1 - ?im) then ev (j - ?im) else rbring j)"
          using False two by (simp add: write_slots_def Let_def copy_voidptr_eq fun_eq_iff S sub)
        also have "\<dots> = (\<lambda>j. if \<exists>k<?a. j = slot_of r k
           then ev (if ?im \<le> j \<and> j < ?im + ?a then j - ?im else j + (?M + 1 - ?im))
           else rbring j)"
        proof (rule ext)
          fix j
          have ex: "(\<exists>k<?a. j = slot_of r k) \<longleftrightarrow> j < ?a - (?M + 1 - ?im) \<or> (?im \<le> j \<and> j < ?M + 1)"
          proof
            assume "\<exists>k<?a. j = slot_of r k"
            then obtain k where k: "k < ?a" "j = slot_of r k" by blast
            show "j < ?a - (?M + 1 - ?im) \<or> (?im \<le> j \<and> j < ?M + 1)"
              using k im by (cases "k < ?M + 1 - ?im") (auto simp: slot_of_def Let_def)
          next
            assume b: "j < ?a - (?M + 1 - ?im) \<or> (?im \<le> j \<and> j < ?M + 1)"
            show "\<exists>k<?a. j = slot_of r k"
            proof (cases "?im \<le> j \<and> j < ?M + 1")
              case True
              then have "j - ?im < ?a" "j = slot_of r (j - ?im)"
                using gt im by (auto simp: slot_of_def Let_def)
              then show ?thesis by blast
            next
              case False
              with b have c: "j < ?a - (?M + 1 - ?im)" by blast
              then have "j + (?M + 1 - ?im) < ?a" "j = slot_of r (j + (?M + 1 - ?im))"
                by (auto simp: slot_of_def Let_def)
              then show ?thesis by blast
            qed
          qed
          have lt: "?a - (?M + 1 - ?im) \<le> ?im" using assms(2) im by simp
          show "(if j < ?a - (?M + 1 - ?im) then ev (?M + 1 - ?im + j)
               else if ?im \<le> j \<and> j < ?im + (?M + 1 - ?im) then ev (j - ?im) else rbring j) =
            (if \<exists>k<?a. j = slot_of r k
             then ev (if ?im \<le> j \<and> j < ?im + ?a then j - ?im else j + (?M + 1 - ?im))
             else rbring j)"
            unfolding ex using lt im gt by (auto simp: add.commute)
        qed
        finally show ?thesis .
      qed
    qed
  qed
qed

lemma slot_of_bound:
  assumes "unat (actual r) \<le> unat (mask' r) + 1" "k < unat (actual r)"
  shows "slot_of r k \<le> unat (mask' r)"
  using assms unat_and_mask_le [of "index r" "mask' r"]
  by (auto simp: slot_of_def Let_def)

lemma write_slots_at:
  assumes "1 \<le> unat (actual r)" "unat (actual r) \<le> unat (mask' r) + 1" "k < unat (actual r)"
  shows "write_slots rbring ev r (slot_of r k) = ev k"
proof -
  have ex: "\<exists>k'<unat (actual r). slot_of r k = slot_of r k'" using assms(3) by blast
  have im: "unat (index r AND mask' r) \<le> unat (mask' r)" by (rule unat_and_mask_le)
  show ?thesis
    unfolding write_slots_nat [OF assms(1,2)] if_P [OF ex]
    using assms im by (auto simp: slot_of_def Let_def intro!: arg_cong [where f = ev])
qed

lemma write_slots_frame:
  assumes "1 \<le> unat (actual r)" "unat (actual r) \<le> unat (mask' r) + 1"
    "\<forall>k<unat (actual r). j \<noteq> slot_of r k"
  shows "write_slots rbring ev r j = rbring j"
  unfolding write_slots_nat [OF assms(1,2)] using assms(3) by auto

lemma read_slots_nat:
  assumes "1 \<le> unat (actual r)" "unat (actual r) \<le> unat (mask' r) + 1"
  shows "read_slots rbring ev r = (\<lambda>k. if k < unat (actual r) then rbring (slot_of r k) else ev k)"
proof -
  let ?im = "unat (index r AND mask' r)"
  let ?a = "unat (actual r)"
  let ?M = "unat (mask' r)"
  let ?seg = "mask' r + 1 - (index r AND mask' r)"
  have im: "?im \<le> ?M" by (rule unat_and_mask_le)
  have a32: "?a < 2 ^ 32" using unsigned_less [of "actual r"] by simp
  show ?thesis
  proof (cases "actual r \<le> 1")
    case True
    then have a1: "?a = 1" using assms(1) by (simp add: unat_le_1)
    with im show ?thesis
      using True by (auto simp: read_slots_def Let_def slot_of_def fun_eq_iff)
  next
    case False
    then have a2: "2 \<le> ?a" by (simp add: unat_le_1)
    show ?thesis
    proof (cases "mask' r = - 1 \<and> index r AND mask' r = 0")
      case wrap: True
      have S: "unat ?seg = 0" unfolding unat_seg0 by (simp only: if_P [OF wrap])
      then have seg0: "?seg = 0" by (simp add: unat_eq_0)
      from wrap have m1: "mask' r = - 1" by (rule conjunct1)
      from wrap have iz: "index r AND mask' r = 0" by (rule conjunct2)
      have M: "?M = 4294967295" unfolding m1 by (rule unat_max32)
      have i0: "?im = 0" unfolding iz by simp
      from a2 have nle: "\<not> actual r \<le> ?seg" unfolding seg0 by (auto simp: word_le_nat_alt)
      have "read_slots rbring ev r = (\<lambda>k. if k < ?a then rbring k else ev k)"
        using False nle
        by (simp add: read_slots_def Let_def copy_voidptr_eq seg0 i0 fun_eq_iff)
      also have "\<dots> = (\<lambda>k. if k < ?a then rbring (slot_of r k) else ev k)"
        using a32 by (auto simp: fun_eq_iff slot_of_def Let_def i0 M)
      finally show ?thesis .
    next
      case nowrap: False
      have S: "unat ?seg = ?M + 1 - ?im" unfolding unat_seg0 by (simp only: if_not_P [OF nowrap])
      show ?thesis
      proof (cases "actual r \<le> ?seg")
        case one: True
        then have le: "?a \<le> ?M + 1 - ?im" by (simp add: word_le_nat_alt S)
        show ?thesis
          using False one le
          by (auto simp: read_slots_def Let_def copy_voidptr_eq fun_eq_iff slot_of_def)
      next
        case two: False
        then have gt: "?M + 1 - ?im < ?a" by (simp add: word_le_nat_alt S)
        then have "?seg \<le> actual r" by (simp add: word_le_nat_alt S)
        then have sub: "unat (actual r - ?seg) = ?a - (?M + 1 - ?im)" by (simp add: unat_sub S)
        show ?thesis
          using False two gt im
          by (auto simp: read_slots_def Let_def copy_voidptr_eq fun_eq_iff slot_of_def S sub)
      qed
    qed
  qed
qed

lemma MIN'_one: "0 < y \<Longrightarrow> MIN' 1 y = 1"
  by (simp add: MIN'_def)

lemma write_slots_one:
  "actual r = 1 \<Longrightarrow> write_slots rbring ev r = rbring (unat (index r AND mask' r) := ev 0)"
  by (simp add: write_slots_def)

lemma nbenq_write_slots_one:
  "actual r = 1 \<Longrightarrow> nbenq_write_slots rbring ev r = rbring (unat (index r AND mask' r) := ev 0)"
  by (simp add: nbenq_write_slots_def nbenq_store_loop.simps)

lemma read_slots_one:
  "actual r = 1 \<Longrightarrow> read_slots rbring ev r = ev (0 := rbring (unat (index r AND mask' r)))"
  by (simp add: read_slots_def)

lemma MIN'_none: "y \<le> 0 \<Longrightarrow> MIN' n y \<le> 0"
  by (simp add: MIN'_def)

lemma p64_ringbuf_enqueue_one:
  assumes q: "quiescent_empty hdl rb" and c: "0 < sint (capacity (prod_ep rb))"
  shows "p64_ringbuf_enqueue hdl rb ev 1 =
    Some (Inr (1, rb \<lparr> prod_ep :=
                       (if PROD_FLAGS hdl AND (FLAG_BLK OR FLAG_NONBLK) = 0 then prod_ep rb
                        else (prod_ep rb) \<lparr> tail := cur (head (prod_ep rb)) + 1 \<rparr>),
                     ring := (ring rb) (unat (cur (head (prod_ep rb)) AND prod_mask rb) := ev 0),
                     cons_ep := (cons_ep rb) \<lparr> head := \<lparr> cur = cur (head (prod_ep rb)) + 1, pend = 0 \<rparr> \<rparr> \<rparr>))"
proof -
  let ?x = "cur (head (prod_ep rb))"
  from q have h: "head (cons_ep rb) = \<lparr> cur = ?x, pend = 0 \<rparr>"
    by (simp_all add: quiescent_empty_def)
  from h have hc: "cur (head (cons_ep rb)) = ?x" by simp
  show ?thesis
  proof (cases "PROD_FLAGS hdl AND (FLAG_BLK OR FLAG_NONBLK) = 0")
    case True
    then have nb: "\<not> PROD_FLAGS hdl AND FLAG_NONBLK \<noteq> 0"
      by (auto simp: bit_eq_iff bit_and_iff bit_or_iff)
    show ?thesis
      using True nb c
      by (simp add: p64_ringbuf_enqueue_def Let_def acquire_slots_def hc MIN'_one
          write_slots_one h release_slots_in_turn)
  next
    case False
    with q have t: "tail (prod_ep rb) = ?x" by (simp add: quiescent_empty_def)
    show ?thesis
      using False c
      by (simp add: p64_ringbuf_enqueue_def Let_def acquire_slots_mtsafe_eq t MIN'_one
          write_slots_one nbenq_write_slots_one h release_slots_in_turn)
  qed
qed

text \<open>
  With a capacity that the acquire path reads as zero or negative, no enqueue on the
  empty ring acquires a slot, in any mode; and no dequeue on an empty ring does.
\<close>

lemma p64_ringbuf_enqueue_none:
  assumes q: "quiescent_empty hdl rb" and c: "sint (capacity (prod_ep rb)) \<le> 0"
  shows "p64_ringbuf_enqueue hdl rb ev num = Some (Inr (0, rb))"
proof -
  let ?x = "cur (head (prod_ep rb))"
  from q have hc: "cur (head (cons_ep rb)) = ?x" by (simp add: quiescent_empty_def)
  from c have n: "MIN' (sint num) (sint (capacity (prod_ep rb))) \<le> 0" by (rule MIN'_none)
  show ?thesis
  proof (cases "PROD_FLAGS hdl AND (FLAG_BLK OR FLAG_NONBLK) = 0")
    case True
    with n show ?thesis
      by (simp add: p64_ringbuf_enqueue_def Let_def acquire_slots_def hc)
  next
    case False
    with q have t: "tail (prod_ep rb) = ?x" by (simp add: quiescent_empty_def)
    from False n show ?thesis
      by (simp add: p64_ringbuf_enqueue_def Let_def acquire_slots_mtsafe_eq t)
  qed
qed

lemma p64_ringbuf_dequeue_none:
  assumes q: "quiescent_empty hdl rb"
  shows "p64_ringbuf_dequeue hdl rb ev num = Some (Inr (0, ev, None, rb))"
proof -
  let ?x = "cur (head (prod_ep rb))"
  from q have hc: "cur (head (cons_ep rb)) = ?x" by (simp add: quiescent_empty_def)
  have n: "MIN' (sint num) 0 \<le> 0" by (rule MIN'_none) simp
  show ?thesis
  proof (cases "CONS_FLAGS hdl AND FLAG_LOCKFREE = 0")
    case lf: False
    have "lockfree_dequeue_loop rb ev num ?x ?x = (0, ev, None, rb)"
      using n by (subst lockfree_dequeue_loop.simps) (simp add: Let_def)
    with lf show ?thesis by (simp add: p64_ringbuf_dequeue_def Let_def hc)
  next
    case nlf: True
    show ?thesis
    proof (cases "CONS_FLAGS hdl AND (FLAG_BLK OR FLAG_NONBLK) = 0")
      case True
      with nlf n show ?thesis
        by (simp add: p64_ringbuf_dequeue_def Let_def acquire_slots_def hc)
    next
      case False
      with nlf q have tt: "tail (cons_ep rb) = ?x" "capacity (cons_ep rb) = 0"
        by (simp_all add: quiescent_empty_def)
      from False nlf n show ?thesis
        by (simp add: p64_ringbuf_dequeue_def Let_def acquire_slots_mtsafe_eq hc tt)
    qed
  qed
qed

lemma p64_ringbuf_dequeue_one:
  assumes p: "head (prod_ep rb) = \<lparr> cur = x, pend = 0 \<rparr>"
    and c: "cur (head (cons_ep rb)) = x + 1"
    and t: "CONS_FLAGS hdl AND FLAG_LOCKFREE = 0 \<and> CONS_FLAGS hdl AND (FLAG_BLK OR FLAG_NONBLK) \<noteq> 0 \<longrightarrow>
        tail (cons_ep rb) = x \<and> capacity (cons_ep rb) = 0"
  shows "p64_ringbuf_dequeue hdl rb ev 1 =
    Some (Inr (1, ev (0 := ring rb (unat (x AND cons_mask rb))), Some x,
               rb \<lparr> cons_ep :=
                      (if CONS_FLAGS hdl AND FLAG_LOCKFREE = 0 \<and>
                          CONS_FLAGS hdl AND (FLAG_BLK OR FLAG_NONBLK) \<noteq> 0
                       then (cons_ep rb) \<lparr> tail := x + 1 \<rparr> else cons_ep rb),
                    prod_ep := (prod_ep rb) \<lparr> head := \<lparr> cur = x + 1, pend = 0 \<rparr> \<rparr> \<rparr>))"
proof -
  from p have pc: "cur (head (prod_ep rb)) = x" by simp
  have one: "MIN' 1 1 = 1" by (simp add: MIN'_def)
  note one' = one
  show ?thesis
  proof (cases "CONS_FLAGS hdl AND FLAG_LOCKFREE = 0")
    case lf: False
    have "lockfree_dequeue_loop rb ev 1 (x + 1) x =
      (1, ev (0 := ring rb (unat (x AND cons_mask rb))), Some x,
       rb \<lparr> prod_ep := (prod_ep rb) \<lparr> head := \<lparr> cur = x + 1, pend = 0 \<rparr> \<rparr> \<rparr>)"
      by (subst lockfree_dequeue_loop.simps)
        (simp add: one Let_def read_slots_one atomic_compare_exchange_def pc p)
    with lf show ?thesis by (simp add: p64_ringbuf_dequeue_def Let_def pc c)
  next
    case nlf: True
    show ?thesis
    proof (cases "CONS_FLAGS hdl AND (FLAG_BLK OR FLAG_NONBLK) = 0")
      case True
      with nlf show ?thesis
        by (simp add: p64_ringbuf_dequeue_def Let_def acquire_slots_def pc c one' one
            read_slots_one p release_slots_in_turn)
    next
      case False
      with nlf t have tt: "tail (cons_ep rb) = x" "capacity (cons_ep rb) = 0" by simp_all
      from False nlf show ?thesis
        by (simp add: p64_ringbuf_dequeue_def Let_def acquire_slots_mtsafe_eq pc c tt one' one
            read_slots_one p release_slots_in_turn)
    qed
  qed
qed

lemma two_subranges_iff:
  assumes "mask' r \<noteq> - 1"
  shows "two_subranges r \<longleftrightarrow>
    unat (mask' r) + 1 < unat (actual r) + unat (index r AND mask' r)"
proof -
  have nowrap: "\<not> (mask' r = - 1 \<and> index r AND mask' r = 0)" using assms by simp
  have S: "unat (mask' r + 1 - (index r AND mask' r)) = unat (mask' r) + 1 - unat (index r AND mask' r)"
    unfolding unat_seg0 by (simp only: if_not_P [OF nowrap])
  have im: "unat (index r AND mask' r) \<le> unat (mask' r)" by (rule unat_and_mask_le)
  show ?thesis
    unfolding two_subranges_def unat_le_1 word_le_nat_alt [of "actual r"] S
    using im by auto
qed

lemma idxpair_pend0: "pend p = 0 \<Longrightarrow> p = \<lparr> cur = cur p, pend = 0 \<rparr>"
  by (cases p) simp


text \<open>
  The test under which \<open>write_slots\<close> and \<open>read_slots\<close> copy two subranges, for a range
  of at least two elements; a range of one element is stored or loaded directly.
\<close>

lemma write_slots_branch:
  assumes "\<not> actual r \<le> 1"
  shows "write_slots rbring ev r =
    (if two_subranges r
     then copy_voidptr
            (copy_voidptr rbring (unat (index r AND mask' r)) ev 0
               (mask' r + 1 - (index r AND mask' r)))
            0 ev (unat (mask' r + 1 - (index r AND mask' r)))
            (actual r - (mask' r + 1 - (index r AND mask' r)))
     else copy_voidptr rbring (unat (index r AND mask' r)) ev 0 (actual r))"
  using assms by (simp add: write_slots_def two_subranges_def Let_def)

lemma read_slots_branch:
  assumes "\<not> actual r \<le> 1"
  shows "read_slots rbring ev r =
    (if two_subranges r
     then copy_voidptr
            (copy_voidptr ev 0 rbring (unat (index r AND mask' r))
               (mask' r + 1 - (index r AND mask' r)))
            (unat (mask' r + 1 - (index r AND mask' r))) rbring 0
            (actual r - (mask' r + 1 - (index r AND mask' r)))
     else copy_voidptr ev 0 rbring (unat (index r AND mask' r)) (actual r))"
  using assms by (simp add: read_slots_def two_subranges_def Let_def)

text \<open>
  With the mask \<open>2^32 - 1\<close> and \<open>index & mask = 0\<close> the code computes \<open>seg0 = 0\<close> (the
  sum \<open>mask + 1\<close> wraps), and for two elements or more copies a first subrange of no
  element and then the whole range to the start of the ring.
\<close>

lemma two_subranges_all:
  assumes a2: "unat (actual r) \<le> unat (mask' r) + 1"
  shows "two_subranges r \<longleftrightarrow>
    unat (mask' r) + 1 < unat (actual r) + unat (index r AND mask' r) \<or>
    mask' r = - 1 \<and> index r AND mask' r = 0 \<and> 2 \<le> unat (actual r)"
proof (cases "mask' r = - 1 \<and> index r AND mask' r = 0")
  case wrap: True
  have S: "unat (mask' r + 1 - (index r AND mask' r)) = 0"
    unfolding unat_seg0 by (simp only: if_P [OF wrap])
  from wrap have "index r AND mask' r = 0" by (rule conjunct2)
  then have z: "unat (index r AND mask' r) = 0" by (simp only: unat_eq_0)
  have "two_subranges r \<longleftrightarrow> 2 \<le> unat (actual r)"
    unfolding two_subranges_def unat_le_1 word_le_nat_alt [of "actual r"] S by auto
  moreover have "\<not> unat (mask' r) + 1 < unat (actual r) + unat (index r AND mask' r)"
    using a2 z by simp
  ultimately show ?thesis using wrap by blast
next
  case nowrap: False
  have S: "unat (mask' r + 1 - (index r AND mask' r)) = unat (mask' r) + 1 - unat (index r AND mask' r)"
    unfolding unat_seg0 by (simp only: if_not_P [OF nowrap])
  have im: "unat (index r AND mask' r) \<le> unat (mask' r)" by (rule unat_and_mask_le)
  have "two_subranges r \<longleftrightarrow>
      unat (mask' r) + 1 < unat (actual r) + unat (index r AND mask' r)"
    unfolding two_subranges_def unat_le_1 word_le_nat_alt [of "actual r"] S
    using im by auto
  with nowrap show ?thesis by blast
qed

text \<open>
  On a quiescent empty ring whose capacity the acquire path reads as positive, in
  every mode (every handle), an enqueue of one element followed by a dequeue of one
  element returns that element, and leaves the ring quiescent and empty. And for
  every acquire result with \<open>1 \<le> actual \<le> mask + 1\<close>, \<open>read_slots\<close> after
  \<open>write_slots\<close> recovers the elements written (and leaves the rest of the caller's
  array alone): element \<open>k\<close> below \<open>seg0 = mask + 1 - (index & mask)\<close> lies in slot
  \<open>(index & mask) + k\<close>, element \<open>k\<close> from \<open>seg0\<close> on in slot \<open>k - seg0\<close>, no other slot
  is written, the second segment is not empty exactly when
  \<open>actual + (index & mask) > mask + 1\<close>, and that is when the code copies two
  subranges, but for the wrapped \<open>seg0\<close> of the mask \<open>2^32 - 1\<close>.
\<close>

lemma p64_ringbuf_roundtrip_usable:
  fixes rb :: "'a p64_ringbuf" and ev ev' rbring :: "nat \<Rightarrow> 'a"
  shows
  "(quiescent_empty hdl rb \<and> 0 < sint (capacity (prod_ep rb)) \<longrightarrow>
      (\<exists>rb1 out rb2.
         p64_ringbuf_enqueue hdl rb ev 1 = Some (Inr (1, rb1)) \<and>
         p64_ringbuf_dequeue hdl rb1 ev' 1 =
           Some (Inr (1, out, Some (cur (head (prod_ep rb))), rb2)) \<and>
         out 0 = ev 0 \<and> quiescent_empty hdl rb2)) \<and>
   (1 \<le> unat (actual r) \<and> unat (actual r) \<le> unat (mask' r) + 1 \<longrightarrow>
      (\<forall>k<unat (actual r). read_slots (write_slots rbring ev r) ev' r k = ev k) \<and>
      (\<forall>k. unat (actual r) \<le> k \<longrightarrow> read_slots (write_slots rbring ev r) ev' r k = ev' k) \<and>
      (\<forall>k<unat (actual r). write_slots rbring ev r (slot_of r k) = ev k \<and>
                            slot_of r k \<le> unat (mask' r)) \<and>
      (\<forall>j. (\<forall>k<unat (actual r). j \<noteq> slot_of r k) \<longrightarrow> write_slots rbring ev r j = rbring j) \<and>
      ((\<exists>k<unat (actual r). \<not> k < unat (mask' r) + 1 - unat (index r AND mask' r)) \<longleftrightarrow>
         unat (mask' r) + 1 < unat (actual r) + unat (index r AND mask' r)) \<and>
      (two_subranges r \<longleftrightarrow>
         unat (mask' r) + 1 < unat (actual r) + unat (index r AND mask' r) \<or>
         mask' r = - 1 \<and> index r AND mask' r = 0 \<and> 2 \<le> unat (actual r)))"
proof (intro conjI impI)
  assume qc: "quiescent_empty hdl rb \<and> 0 < sint (capacity (prod_ep rb))"
  then have q: "quiescent_empty hdl rb" and c: "0 < sint (capacity (prod_ep rb))" by simp_all
  let ?x = "cur (head (prod_ep rb))"
  let ?rb1 = "rb \<lparr> prod_ep :=
                       (if PROD_FLAGS hdl AND (FLAG_BLK OR FLAG_NONBLK) = 0 then prod_ep rb
                        else (prod_ep rb) \<lparr> tail := ?x + 1 \<rparr>),
                     ring := (ring rb) (unat (?x AND prod_mask rb) := ev 0),
                     cons_ep := (cons_ep rb) \<lparr> head := \<lparr> cur = ?x + 1, pend = 0 \<rparr> \<rparr> \<rparr>"
  let ?rb2 = "?rb1 \<lparr> cons_ep :=
                      (if CONS_FLAGS hdl AND FLAG_LOCKFREE = 0 \<and>
                          CONS_FLAGS hdl AND (FLAG_BLK OR FLAG_NONBLK) \<noteq> 0
                       then (cons_ep ?rb1) \<lparr> tail := ?x + 1 \<rparr> else cons_ep ?rb1),
                    prod_ep := (prod_ep ?rb1) \<lparr> head := \<lparr> cur = ?x + 1, pend = 0 \<rparr> \<rparr> \<rparr>"
  from q have p0: "pend (head (prod_ep rb)) = 0" and m: "prod_mask rb = cons_mask rb"
    by (simp_all add: quiescent_empty_def)
  from p0 have hp: "head (prod_ep rb) = \<lparr> cur = ?x, pend = 0 \<rparr>" by (rule idxpair_pend0)
  have e: "p64_ringbuf_enqueue hdl rb ev 1 = Some (Inr (1, ?rb1))"
    by (rule p64_ringbuf_enqueue_one [OF q c])
  have d: "p64_ringbuf_dequeue hdl ?rb1 ev' 1 =
    Some (Inr (1, ev' (0 := ring ?rb1 (unat (?x AND cons_mask ?rb1))), Some ?x, ?rb2))"
  proof (rule p64_ringbuf_dequeue_one)
    show "head (prod_ep ?rb1) = \<lparr> cur = ?x, pend = 0 \<rparr>" using hp by simp
    show "cur (head (cons_ep ?rb1)) = ?x + 1" by simp
    show "CONS_FLAGS hdl AND FLAG_LOCKFREE = 0 \<and> CONS_FLAGS hdl AND (FLAG_BLK OR FLAG_NONBLK) \<noteq> 0 \<longrightarrow>
        tail (cons_ep ?rb1) = ?x \<and> capacity (cons_ep ?rb1) = 0"
      using q by (simp add: quiescent_empty_def)
  qed
  have v: "(ev' (0 := ring ?rb1 (unat (?x AND cons_mask ?rb1)))) 0 = ev 0" by (simp add: m)
  have q2: "quiescent_empty hdl ?rb2" using q by (simp add: quiescent_empty_def)
  from e d v q2 show "\<exists>rb1 out rb2.
         p64_ringbuf_enqueue hdl rb ev 1 = Some (Inr (1, rb1)) \<and>
         p64_ringbuf_dequeue hdl rb1 ev' 1 =
           Some (Inr (1, out, Some (cur (head (prod_ep rb))), rb2)) \<and>
         out 0 = ev 0 \<and> quiescent_empty hdl rb2" by blast
next
  assume a: "1 \<le> unat (actual r) \<and> unat (actual r) \<le> unat (mask' r) + 1"
  then have a1: "1 \<le> unat (actual r)" and a2: "unat (actual r) \<le> unat (mask' r) + 1" by simp_all
  show "two_subranges r \<longleftrightarrow>
         unat (mask' r) + 1 < unat (actual r) + unat (index r AND mask' r) \<or>
         mask' r = - 1 \<and> index r AND mask' r = 0 \<and> 2 \<le> unat (actual r)"
    by (rule two_subranges_all [OF a2])
  show "\<forall>k<unat (actual r). read_slots (write_slots rbring ev r) ev' r k = ev k"
    by (simp add: read_slots_nat [OF a1 a2] write_slots_at [OF a1 a2])
  show "\<forall>k. unat (actual r) \<le> k \<longrightarrow> read_slots (write_slots rbring ev r) ev' r k = ev' k"
    by (simp add: read_slots_nat [OF a1 a2])
  show "\<forall>k<unat (actual r). write_slots rbring ev r (slot_of r k) = ev k \<and>
                            slot_of r k \<le> unat (mask' r)"
    by (simp add: write_slots_at [OF a1 a2] slot_of_bound [OF a2])
  show "\<forall>j. (\<forall>k<unat (actual r). j \<noteq> slot_of r k) \<longrightarrow> write_slots rbring ev r j = rbring j"
    by (simp add: write_slots_frame [OF a1 a2])
  show "(\<exists>k<unat (actual r). \<not> k < unat (mask' r) + 1 - unat (index r AND mask' r)) \<longleftrightarrow>
         unat (mask' r) + 1 < unat (actual r) + unat (index r AND mask' r)"
  proof
    assume "\<exists>k<unat (actual r). \<not> k < unat (mask' r) + 1 - unat (index r AND mask' r)"
    then show "unat (mask' r) + 1 < unat (actual r) + unat (index r AND mask' r)" by auto
  next
    assume b: "unat (mask' r) + 1 < unat (actual r) + unat (index r AND mask' r)"
    then have "unat (actual r) - 1 < unat (actual r)"
      "\<not> unat (actual r) - 1 < unat (mask' r) + 1 - unat (index r AND mask' r)"
      using a1 by auto
    then show "\<exists>k<unat (actual r). \<not> k < unat (mask' r) + 1 - unat (index r AND mask' r)" by blast
  qed
qed

text \<open>The buffer written by \<open>p64_ringbuf_alloc\<close> is quiescent and empty, in every mode.\<close>

lemma alloc_object_quiescent_empty:
  "quiescent_empty hdl (alloc_object nelems fresh)"
  by (simp add: quiescent_empty_def alloc_object_def)

lemma p64_ringbuf_roundtrip_example:
  "(\<exists>rb1 out rb2.
      p64_ringbuf_enqueue 0x1009 (alloc_object 4 fresh_block) (\<lambda>_. 42) 1 = Some (Inr (1, rb1)) \<and>
      p64_ringbuf_dequeue 0x1009 rb1 (\<lambda>_. 0) 1 = Some (Inr (1, out, Some 0, rb2)) \<and>
      out 0 = 42) \<and>
   read_slots (write_slots (\<lambda>_. 0) (\<lambda>i. 10 + i) \<lparr> index = 6, actual = 4, mask' = 7 \<rparr>) (\<lambda>_. 0)
     \<lparr> index = 6, actual = 4, mask' = 7 \<rparr> 3 = 13 \<and>
   write_slots (\<lambda>_. 0) (\<lambda>i. 10 + i) \<lparr> index = 6, actual = 4, mask' = 7 \<rparr> 1 = 13 \<and>
   write_slots (\<lambda>_. 0) (\<lambda>i. 10 + i) \<lparr> index = 6, actual = 4, mask' = 7 \<rparr> 6 = 10 \<and>
   two_subranges \<lparr> index = 6, actual = 4, mask' = 7 \<rparr>"
proof -
  let ?r = "\<lparr> index = 6, actual = 4, mask' = 7 \<rparr> :: p64_ringbuf_result_t"
  let ?w = "write_slots (\<lambda>_. 0) (\<lambda>i. 10 + i) ?r :: nat \<Rightarrow> nat"
  have q: "quiescent_empty 0x1009 (alloc_object 4 fresh_block) \<and>
      0 < sint (capacity (prod_ep (alloc_object 4 fresh_block)))"
    by (simp add: quiescent_empty_def alloc_object_def PROD_FLAGS_def CONS_FLAGS_def
        FLAG_MASK_def FLAG_BLK_def FLAG_NONBLK_def FLAG_LOCKFREE_def)
  have s3: "slot_of ?r 3 = 1" and s0: "slot_of ?r 0 = 6"
    by (simp_all add: slot_of_def)
  have c0: "cur (head (prod_ep (alloc_object 4 fresh_block))) = 0"
    by (simp add: alloc_object_def)
  from p64_ringbuf_roundtrip_usable [where hdl = "0x1009" and rb = "alloc_object 4 fresh_block"
      and ev = "\<lambda>_. 42" and ev' = "\<lambda>_. 0" and r = ?r and rbring = "\<lambda>_. 0"]
  have "quiescent_empty 0x1009 (alloc_object 4 fresh_block) \<and>
      0 < sint (capacity (prod_ep (alloc_object 4 fresh_block))) \<longrightarrow>
    (\<exists>rb1 out rb2.
      p64_ringbuf_enqueue 0x1009 (alloc_object 4 fresh_block) (\<lambda>_. 42) 1 = Some (Inr (1, rb1)) \<and>
      p64_ringbuf_dequeue 0x1009 rb1 (\<lambda>_. 0) 1 = Some (Inr (1, out, Some 0, rb2)) \<and>
      out 0 = 42 \<and> quiescent_empty 0x1009 rb2)"
    unfolding c0 by (rule conjunct1)
  from this q have "\<exists>rb1 out rb2.
      p64_ringbuf_enqueue 0x1009 (alloc_object 4 fresh_block) (\<lambda>_. 42) 1 = Some (Inr (1, rb1)) \<and>
      p64_ringbuf_dequeue 0x1009 rb1 (\<lambda>_. 0) 1 = Some (Inr (1, out, Some 0, rb2)) \<and>
      out 0 = 42 \<and> quiescent_empty 0x1009 rb2"
    by (rule mp)
  then obtain rb1 out rb2 where
    "p64_ringbuf_enqueue 0x1009 (alloc_object 4 fresh_block) (\<lambda>_. 42) 1 = Some (Inr (1, rb1))"
    "p64_ringbuf_dequeue 0x1009 rb1 (\<lambda>_. 0) 1 = Some (Inr (1, out, Some 0, rb2))"
    "out 0 = 42"
    by (elim exE conjE)
  then have 1: "\<exists>rb1 out rb2.
      p64_ringbuf_enqueue 0x1009 (alloc_object 4 fresh_block) (\<lambda>_. 42) 1 = Some (Inr (1, rb1)) \<and>
      p64_ringbuf_dequeue 0x1009 rb1 (\<lambda>_. 0) 1 = Some (Inr (1, out, Some 0, rb2)) \<and>
      out 0 = 42"
    by (intro exI conjI)
  from p64_ringbuf_roundtrip_usable [where hdl = "0x1009" and rb = "alloc_object 4 fresh_block"
      and ev = "\<lambda>i. 10 + i" and ev' = "\<lambda>_. 0" and r = ?r and rbring = "\<lambda>_. 0"]
  have 2: "(\<forall>k<4. read_slots ?w (\<lambda>_. 0) ?r k = 10 + k) \<and>
     (\<forall>k<4. ?w (slot_of ?r k) = 10 + k) \<and> two_subranges ?r"
    by simp
  from 2 have a: "\<forall>k<4. read_slots ?w (\<lambda>_. 0) ?r k = 10 + k" by (rule conjunct1)
  from 2 have b: "\<forall>k<4. ?w (slot_of ?r k) = 10 + k" by (rule conjunct2 [THEN conjunct1])
  from 2 have ts: "two_subranges ?r" by (rule conjunct2 [THEN conjunct2])
  from a have "3 < (4 :: nat) \<longrightarrow> read_slots ?w (\<lambda>_. 0) ?r 3 = 10 + 3" by (rule spec)
  then have r3: "read_slots ?w (\<lambda>_. 0) ?r 3 = 13" by simp
  from b have "3 < (4 :: nat) \<longrightarrow> ?w (slot_of ?r 3) = 10 + 3" by (rule spec)
  then have w1: "?w 1 = 13" unfolding s3 by simp
  from b have "0 < (4 :: nat) \<longrightarrow> ?w (slot_of ?r 0) = 10 + 0" by (rule spec)
  then have w6: "?w 6 = 10" unfolding s0 by simp
  from 1 r3 w1 w6 ts show ?thesis by (intro conjI)
qed

lemma example_alloc_2p31:
  "p64_ringbuf_alloc example_flags 0x80000000 0 8 (0x1000, fresh_block) Map.empty =
     ([], 0x1009, [0x1000 \<mapsto> alloc_object 0x80000000 fresh_block])"
  by (simp add: p64_ringbuf_alloc_cases invalid_flags_def has_flag_def SUPPORTED_FLAGS_def
      example_flags_def alloc_cons_flags_def alloc_prod_flags_def
      FLAG_BLK_def FLAG_NONBLK_def FLAG_LOCKFREE_def)

text \<open>
  C5: in every mode, an enqueue of \<open>v\<close> followed by a dequeue on an otherwise empty
  ring returns \<open>v\<close>. \<open>p64_ringbuf_alloc\<close> accepts \<open>nelems = 0x80000000\<close> (its test
  \<open>nelems > MAXELEMS\<close> compares a 32-bit value with \<open>0xFFFFFFFF\<close>) and returns an empty
  ring of that capacity. On this ring, through a handle of any mode, the acquire
  path reads the free slots as \<open>(int)0x80000000\<close>, a negative number: the enqueue of
  one element returns 0 and leaves the ring as it was, and the dequeue that follows
  returns 0 and no element.
\<close>

theorem p64_ringbuf_roundtrip_2p31:
  "p64_ringbuf_alloc example_flags 0x80000000 0 8 (0x1000, fresh_block) Map.empty =
     ([], 0x1009, [0x1000 \<mapsto> alloc_object 0x80000000 fresh_block]) \<and>
   (\<forall>hdl.
      p64_ringbuf_enqueue hdl (alloc_object 0x80000000 fresh_block) (\<lambda>_. 42) 1 =
        Some (Inr (0, alloc_object 0x80000000 fresh_block)) \<and>
      p64_ringbuf_dequeue hdl (alloc_object 0x80000000 fresh_block) (\<lambda>_. 0) 1 =
        Some (Inr (0, \<lambda>_. 0, None, alloc_object 0x80000000 fresh_block)))"
proof (intro conjI allI)
  show "p64_ringbuf_alloc example_flags 0x80000000 0 8 (0x1000, fresh_block) Map.empty =
     ([], 0x1009, [0x1000 \<mapsto> alloc_object 0x80000000 fresh_block])"
    by (rule example_alloc_2p31)
next
  fix hdl
  have c: "sint (capacity (prod_ep (alloc_object 0x80000000 fresh_block))) \<le> 0"
    by (simp add: alloc_object_def)
  show "p64_ringbuf_enqueue hdl (alloc_object 0x80000000 fresh_block) (\<lambda>_. 42) 1 =
        Some (Inr (0, alloc_object 0x80000000 fresh_block))"
    using alloc_object_quiescent_empty c by (rule p64_ringbuf_enqueue_none)
  show "p64_ringbuf_dequeue hdl (alloc_object 0x80000000 fresh_block) (\<lambda>_. 0) 1 =
        Some (Inr (0, \<lambda>_. 0, None, alloc_object 0x80000000 fresh_block))"
    using alloc_object_quiescent_empty by (rule p64_ringbuf_dequeue_none)
qed

theorem p64_ringbuf_roundtrip_2p31_witness:
  "fst (snd (p64_ringbuf_alloc example_flags 0x80000000 0 8 (0x1000, fresh_block) Map.empty))
     = 0x1009 \<and>
   p64_ringbuf_enqueue 0x1009 (alloc_object 0x80000000 fresh_block) (\<lambda>_. 42) 1 =
     Some (Inr (0, alloc_object 0x80000000 fresh_block)) \<and>
   p64_ringbuf_dequeue 0x1009 (alloc_object 0x80000000 fresh_block) (\<lambda>_. 0) 1 =
     Some (Inr (0, \<lambda>_. 0, None, alloc_object 0x80000000 fresh_block))"
proof (intro conjI)
  from p64_ringbuf_roundtrip_2p31
  have "p64_ringbuf_alloc example_flags 0x80000000 0 8 (0x1000, fresh_block) Map.empty =
     ([], 0x1009, [0x1000 \<mapsto> alloc_object 0x80000000 fresh_block])"
    by (rule conjunct1)
  then show "fst (snd (p64_ringbuf_alloc example_flags 0x80000000 0 8 (0x1000, fresh_block)
      Map.empty)) = 0x1009"
    by (simp only: fst_conv snd_conv)
  from p64_ringbuf_roundtrip_2p31
  have a: "\<forall>hdl.
      p64_ringbuf_enqueue hdl (alloc_object 0x80000000 fresh_block) (\<lambda>_. 42) 1 =
        Some (Inr (0, alloc_object 0x80000000 fresh_block)) \<and>
      p64_ringbuf_dequeue hdl (alloc_object 0x80000000 fresh_block) (\<lambda>_. 0) 1 =
        Some (Inr (0, \<lambda>_. 0, None, alloc_object 0x80000000 fresh_block))"
    by (rule conjunct2)
  from a have b: "p64_ringbuf_enqueue 0x1009 (alloc_object 0x80000000 fresh_block) (\<lambda>_. 42) 1 =
        Some (Inr (0, alloc_object 0x80000000 fresh_block)) \<and>
      p64_ringbuf_dequeue 0x1009 (alloc_object 0x80000000 fresh_block) (\<lambda>_. 0) 1 =
        Some (Inr (0, \<lambda>_. 0, None, alloc_object 0x80000000 fresh_block))"
    by (rule spec)
  from b show "p64_ringbuf_enqueue 0x1009 (alloc_object 0x80000000 fresh_block) (\<lambda>_. 42) 1 =
     Some (Inr (0, alloc_object 0x80000000 fresh_block))"
    by (rule conjunct1)
  from b show "p64_ringbuf_dequeue 0x1009 (alloc_object 0x80000000 fresh_block) (\<lambda>_. 0) 1 =
     Some (Inr (0, \<lambda>_. 0, None, alloc_object 0x80000000 fresh_block))"
    by (rule conjunct2)
qed

section \<open>Capacity and order of the single-producer single-consumer ring\<close>

lemma MIN'_nonpos: "y \<le> 0 \<Longrightarrow> MIN' 1 y = y"
  by (simp add: MIN'_def)

lemma spsc_enqueue:
  assumes "PROD_FLAGS hdl = 0"
  shows "p64_ringbuf_enqueue hdl rb ev 1 =
     (if 0 < sint (capacity (prod_ep rb) + cur (head (prod_ep rb)) - cur (head (cons_ep rb)))
      then Some (Inr (1, rb \<lparr> ring := (ring rb) (unat (cur (head (cons_ep rb)) AND prod_mask rb) := ev 0),
                            cons_ep := (cons_ep rb) \<lparr> head := (head (cons_ep rb))
                                         \<lparr> cur := cur (head (cons_ep rb)) + 1 \<rparr> \<rparr> \<rparr>))
      else Some (Inr (0, rb)))"
proof (cases "0 < sint (capacity (prod_ep rb) + cur (head (prod_ep rb)) - cur (head (cons_ep rb)))")
  case True
  with assms show ?thesis
    by (simp add: p64_ringbuf_enqueue_def Let_def acquire_slots_def MIN'_one write_slots_one
        release_slots_unflagged)
next
  case False
  with assms show ?thesis
    by (simp add: p64_ringbuf_enqueue_def Let_def acquire_slots_def MIN'_nonpos)
qed

lemma spsc_dequeue:
  assumes "CONS_FLAGS hdl = 0"
  shows "p64_ringbuf_dequeue hdl rb ev 1 =
     (if 0 < sint (cur (head (cons_ep rb)) - cur (head (prod_ep rb)))
      then Some (Inr (1, ev (0 := ring rb (unat (cur (head (prod_ep rb)) AND cons_mask rb))),
                      Some (cur (head (prod_ep rb))),
                      rb \<lparr> prod_ep := (prod_ep rb) \<lparr> head := (head (prod_ep rb))
                                         \<lparr> cur := cur (head (prod_ep rb)) + 1 \<rparr> \<rparr> \<rparr>))
      else Some (Inr (0, ev, None, rb)))"
proof (cases "0 < sint (cur (head (cons_ep rb)) - cur (head (prod_ep rb)))")
  case True
  with assms show ?thesis
    by (simp add: p64_ringbuf_dequeue_def Let_def acquire_slots_def MIN'_one read_slots_one
        release_slots_unflagged)
next
  case False
  with assms show ?thesis
    by (simp add: p64_ringbuf_dequeue_def Let_def acquire_slots_def MIN'_nonpos)
qed

lemma sint_of_nat_small:
  assumes "d < 2 ^ 31"
  shows "sint (word_of_nat d :: 32 word) = int d"
proof -
  have "sint (word_of_nat d :: 32 word) = signed_take_bit 31 (int d)"
    by (simp add: signed_of_nat)
  also have "\<dots> = int d"
    using assms by (intro signed_take_bit_int_eq_self) simp_all
  finally show ?thesis .
qed

lemma of_nat_unat_sub:
  assumes "k \<le> unat (w :: 32 word)"
  shows "w - word_of_nat k = word_of_nat (unat w - k)"
  using assms by (simp add: of_nat_diff)

lemma ring_mask_32: "(ucast (2 ^ m - 1 :: 64 word) :: 32 word) = mask m"
proof -
  have e: "(2 ^ m - 1 :: 64 word) = mask m" by (simp add: mask_eq_exp_minus_1)
  show ?thesis
    unfolding e by (rule bit_word_eqI) (auto simp: bit_ucast_iff bit_mask_iff)
qed

lemma slot_below_nelems:
  assumes "k < unat nelems"
  shows "unat ((word_of_nat k :: 32 word) AND ucast (ROUNDUP_POW2 nelems - 1)) = k"
proof -
  have "unat nelems < 2 ^ 32" using unsigned_less [of nelems] by simp
  with assms have k32: "k < 2 ^ 32" by simp
  then have uk: "unat (word_of_nat k :: 32 word) = k" by (simp add: unat_of_nat)
  show ?thesis
  proof (cases "1 < nelems")
    case False
    then have "unat nelems \<le> 1" by (simp add: word_less_nat_alt)
    with assms have "k = 0" by simp
    then show ?thesis by simp
  next
    case True
    let ?m = "floorlog 2 (unat nelems - 1)"
    from True have "1 < unat nelems" by (simp add: word_less_nat_alt)
    then have "0 < unat nelems - 1" by simp
    from floorlog_bounds [OF this, of 2] have "unat nelems - 1 < 2 ^ ?m" by simp
    with assms have km: "k < 2 ^ ?m" by simp
    have "(word_of_nat k :: 32 word) AND mask ?m = word_of_nat k"
    proof (rule bit_word_eqI)
      fix n assume "n < LENGTH(32)"
      have "bit k n \<Longrightarrow> n < ?m"
      proof -
        assume b: "bit k n"
        from km have tb: "take_bit ?m k = k" by (rule take_bit_nat_eq_self)
        from b have "bit (take_bit ?m k) n" by (simp only: tb)
        then show "n < ?m" by (simp add: bit_take_bit_iff)
      qed
      then show "bit ((word_of_nat k :: 32 word) AND mask ?m) n = bit (word_of_nat k :: 32 word) n"
        by (auto simp: bit_and_iff bit_mask_iff bit_of_nat_iff)
    qed
    with True uk show ?thesis by (simp add: ROUNDUP_POW2_def ring_mask_32)
  qed
qed

lemma spsc_holds_alloc: "spsc_holds nelems (alloc_object nelems fresh) [] 0"
  by (simp add: spsc_holds_def alloc_object_def)

lemma spsc_free_slots:
  assumes "k < unat nelems" "unat nelems < 2 ^ 31"
  shows "0 < sint ((nelems :: 32 word) + 0 - word_of_nat k)"
proof -
  from assms(1) have e: "nelems + 0 - word_of_nat k = word_of_nat (unat nelems - k)"
    by (simp add: of_nat_diff)
  from assms have d: "unat nelems - k < 2 ^ 31" by simp
  from assms(1) have "0 < unat nelems - k" by simp
  then have "0 < int (unat nelems - k)" by (simp only: of_nat_0_less_iff)
  then show ?thesis unfolding e sint_of_nat_small [OF d] .
qed

lemma spsc_used_slots:
  assumes "j < l" "l < 2 ^ 31"
  shows "0 < sint (word_of_nat l - (word_of_nat j :: 32 word))"
proof -
  from assms(1) have e: "word_of_nat l - (word_of_nat j :: 32 word) = word_of_nat (l - j)"
    by (simp add: of_nat_diff)
  from assms have d: "l - j < 2 ^ 31" by simp
  from assms(1) have "0 < l - j" by simp
  then have "0 < int (l - j)" by (simp only: of_nat_0_less_iff)
  then show ?thesis unfolding e sint_of_nat_small [OF d] .
qed

lemma spsc_enqueue_free:
  assumes f: "PROD_FLAGS hdl = 0" and n: "unat nelems < 2 ^ 31"
    and h: "spsc_holds nelems rb xs 0" and l: "length xs < unat nelems"
  shows "\<exists>rb'. p64_ringbuf_enqueue hdl rb ev 1 = Some (Inr (1, rb')) \<and>
    spsc_holds nelems rb' (xs @ [ev 0]) 0"
proof -
  let ?k = "length xs"
  from h have c: "capacity (prod_ep rb) = nelems" "cur (head (prod_ep rb)) = 0"
    "cur (head (cons_ep rb)) = word_of_nat ?k" "prod_mask rb = ucast (ROUNDUP_POW2 nelems - 1)"
    by (simp_all add: spsc_holds_def)
  have "0 < sint (nelems + 0 - word_of_nat ?k)" using l n by (rule spsc_free_slots)
  then have pos: "0 < sint (capacity (prod_ep rb) + cur (head (prod_ep rb)) - cur (head (cons_ep rb)))"
    by (simp only: c)
  have slot: "unat (cur (head (cons_ep rb)) AND prod_mask rb) = ?k"
    unfolding c by (rule slot_below_nelems [OF l])
  have cc: "cur (head (cons_ep rb)) = word_of_nat ?k" by (rule c(3))
  let ?rb' = "rb \<lparr> ring := (ring rb) (?k := ev 0),
      cons_ep := (cons_ep rb) \<lparr> head := (head (cons_ep rb)) \<lparr> cur := word_of_nat ?k + 1 \<rparr> \<rparr> \<rparr>"
  have "p64_ringbuf_enqueue hdl rb ev 1 = Some (Inr (1, ?rb'))"
    unfolding spsc_enqueue [OF f] if_P [OF pos] slot by (simp only: cc)
  moreover have "spsc_holds nelems ?rb' (xs @ [ev 0]) 0"
    using h l by (simp add: spsc_holds_def nth_append)
  ultimately show ?thesis by blast
qed

lemma spsc_enqueue_full:
  assumes f: "PROD_FLAGS hdl = 0"
    and h: "spsc_holds nelems rb xs 0" and l: "length xs = unat nelems"
  shows "p64_ringbuf_enqueue hdl rb ev 1 = Some (Inr (0, rb))"
proof -
  from h l have "capacity (prod_ep rb) + cur (head (prod_ep rb)) - cur (head (cons_ep rb)) = 0"
    by (simp add: spsc_holds_def)
  then show ?thesis unfolding spsc_enqueue [OF f] by simp
qed

lemma spsc_dequeue_used:
  assumes f: "CONS_FLAGS hdl = 0" and n: "unat nelems < 2 ^ 31"
    and h: "spsc_holds nelems rb xs j" and l: "j < length xs"
  shows "\<exists>out rb'. p64_ringbuf_dequeue hdl rb ev 1 = Some (Inr (1, out, Some (word_of_nat j), rb')) \<and>
    out 0 = xs ! j \<and> spsc_holds nelems rb' xs (Suc j)"
proof -
  let ?k = "length xs"
  from h have c: "cur (head (prod_ep rb)) = word_of_nat j"
    "cur (head (cons_ep rb)) = word_of_nat ?k" "cons_mask rb = ucast (ROUNDUP_POW2 nelems - 1)"
    and kn: "?k \<le> unat nelems" and r: "ring rb j = xs ! j"
    using l by (simp_all add: spsc_holds_def)
  from l have jk: "j \<le> ?k" by simp
  from kn n have "?k < 2 ^ 31" by simp
  with l have "0 < sint (word_of_nat ?k - (word_of_nat j :: 32 word))" by (rule spsc_used_slots)
  then have pos: "0 < sint (cur (head (cons_ep rb)) - cur (head (prod_ep rb)))"
    by (simp only: c)
  have cp: "cur (head (prod_ep rb)) = word_of_nat j" by (rule c(1))
  from l kn have "j < unat nelems" by simp
  then have slot: "unat (cur (head (prod_ep rb)) AND cons_mask rb) = j"
    unfolding c by (rule slot_below_nelems)
  let ?rb' = "rb \<lparr> prod_ep := (prod_ep rb) \<lparr> head := (head (prod_ep rb)) \<lparr> cur := word_of_nat j + 1 \<rparr> \<rparr> \<rparr>"
  have "p64_ringbuf_dequeue hdl rb ev 1 =
      Some (Inr (1, ev (0 := ring rb j), Some (word_of_nat j), ?rb'))"
    unfolding spsc_dequeue [OF f] if_P [OF pos] slot by (simp only: cp)
  moreover have "spsc_holds nelems ?rb' xs (Suc j)"
    using h l by (simp add: spsc_holds_def)
  ultimately show ?thesis using r by auto
qed

lemma spsc_dequeue_empty:
  assumes f: "CONS_FLAGS hdl = 0"
    and h: "spsc_holds nelems rb xs j" and l: "j = length xs"
  shows "p64_ringbuf_dequeue hdl rb ev 1 = Some (Inr (0, ev, None, rb))"
proof -
  from h l have "cur (head (cons_ep rb)) - cur (head (prod_ep rb)) = 0"
    by (simp add: spsc_holds_def)
  then show ?thesis unfolding spsc_dequeue [OF f] by simp
qed

lemma enqueue_each_spsc:
  assumes f: "PROD_FLAGS hdl = 0" and n: "unat nelems < 2 ^ 31"
  shows "spsc_holds nelems rb done 0 \<Longrightarrow>
     \<exists>rb'. enqueue_each hdl rb ys =
        Some (Inr (replicate (min (length ys) (unat nelems - length done)) 1 @
                   replicate (length ys - (unat nelems - length done)) 0, rb')) \<and>
       spsc_holds nelems rb' (done @ take (unat nelems - length done) ys) 0"
proof (induction ys arbitrary: rb "done")
  case Nil
  then show ?case by simp
next
  case (Cons y ys)
  let ?N = "unat nelems"
  from Cons.prems have le: "length done \<le> ?N" by (simp add: spsc_holds_def)
  show ?case
  proof (cases "length done < ?N")
    case True
    from spsc_enqueue_free [OF f n Cons.prems True, of "\<lambda>_. y"]
    obtain rb1 where e: "p64_ringbuf_enqueue hdl rb (\<lambda>_. y) 1 = Some (Inr (1, rb1))"
      and h: "spsc_holds nelems rb1 (done @ [y]) 0" by auto
    from Cons.IH [OF h] obtain rb' where
      r: "enqueue_each hdl rb1 ys =
        Some (Inr (replicate (min (length ys) (?N - length (done @ [y]))) 1 @
                   replicate (length ys - (?N - length (done @ [y]))) 0, rb'))"
      and h': "spsc_holds nelems rb' ((done @ [y]) @ take (?N - length (done @ [y])) ys) 0"
      by auto
    from True have m: "?N - length done = Suc (?N - Suc (length done))" by simp
    have "enqueue_each hdl rb (y # ys) =
        Some (Inr (replicate (min (length (y # ys)) (?N - length done)) 1 @
                   replicate (length (y # ys) - (?N - length done)) 0, rb'))"
      using e r by (simp add: m)
    moreover have "spsc_holds nelems rb' (done @ take (?N - length done) (y # ys)) 0"
      using h' by (simp add: m)
    ultimately show ?thesis by blast
  next
    case False
    with le have eq: "length done = ?N" by simp
    from spsc_enqueue_full [OF f Cons.prems eq, of "\<lambda>_. y"]
    have e: "p64_ringbuf_enqueue hdl rb (\<lambda>_. y) 1 = Some (Inr (0, rb))" .
    from Cons.IH [OF Cons.prems] obtain rb' where
      r: "enqueue_each hdl rb ys =
        Some (Inr (replicate (min (length ys) (?N - length done)) 1 @
                   replicate (length ys - (?N - length done)) 0, rb'))"
      and h': "spsc_holds nelems rb' (done @ take (?N - length done) ys) 0"
      by auto
    have "enqueue_each hdl rb (y # ys) =
        Some (Inr (replicate (min (length (y # ys)) (?N - length done)) 1 @
                   replicate (length (y # ys) - (?N - length done)) 0, rb'))"
      using e r by (simp add: eq)
    moreover have "spsc_holds nelems rb' (done @ take (?N - length done) (y # ys)) 0"
      using h' by (simp add: eq)
    ultimately show ?thesis by blast
  qed
qed

lemma dequeue_each_spsc:
  assumes f: "CONS_FLAGS hdl = 0" and n: "unat nelems < 2 ^ 31"
  shows "spsc_holds nelems rb xs j \<Longrightarrow> j + k \<le> length xs \<Longrightarrow>
     \<exists>rb'. dequeue_each hdl rb ev k = Some (Inr (map (Pair 1) (take k (drop j xs)), rb')) \<and>
       spsc_holds nelems rb' xs (j + k)"
proof (induction k arbitrary: rb j)
  case 0
  then show ?case by simp
next
  case (Suc k)
  from Suc.prems(2) have l: "j < length xs" by simp
  from spsc_dequeue_used [OF f n Suc.prems(1) l, of ev]
  obtain out rb1 where
    e: "p64_ringbuf_dequeue hdl rb ev 1 = Some (Inr (1, out, Some (word_of_nat j), rb1))"
    and o: "out 0 = xs ! j" and h: "spsc_holds nelems rb1 xs (Suc j)" by auto
  from Suc.prems(2) have "Suc j + k \<le> length xs" by simp
  from Suc.IH [OF h this] obtain rb' where
    r: "dequeue_each hdl rb1 ev k = Some (Inr (map (Pair 1) (take k (drop (Suc j) xs)), rb'))"
    and h': "spsc_holds nelems rb' xs (Suc j + k)" by auto
  from l have t: "take (Suc k) (drop j xs) = xs ! j # take k (drop (Suc j) xs)"
    by (simp add: Cons_nth_drop_Suc [symmetric])
  have "dequeue_each hdl rb ev (Suc k) =
      Some (Inr (map (Pair 1) (take (Suc k) (drop j xs)), rb'))"
    unfolding t using e r o by simp
  moreover have "spsc_holds nelems rb' xs (j + Suc k)" using h' by simp
  ultimately show ?case by blast
qed

text \<open>
  For every \<open>nelems\<close> from 1 to \<open>2^31 - 1\<close> the ring holds exactly \<open>nelems\<close> elements:
  of \<open>nelems + 1\<close> one-element enqueues on the ring as allocated the first \<open>nelems\<close>
  return 1 and the last returns 0; \<open>nelems\<close> one-element dequeues then return the
  elements in the order of their enqueues, and one more dequeue returns 0.
\<close>

lemma spsc_capacity_fifo:
  assumes "PROD_FLAGS hdl = 0" "CONS_FLAGS hdl = 0"
    and "1 \<le> unat nelems" "unat nelems < 2 ^ 31" "length xs = unat nelems"
  shows "\<exists>rb1 rb2 rb3.
    enqueue_each hdl (alloc_object nelems fresh) (xs @ [y]) =
      Some (Inr (replicate (unat nelems) 1 @ [0], rb1)) \<and>
    dequeue_each hdl rb1 ev (unat nelems) = Some (Inr (map (Pair 1) xs, rb2)) \<and>
    p64_ringbuf_dequeue hdl rb2 ev 1 = Some (Inr (0, ev, None, rb3))"
proof -
  from enqueue_each_spsc [OF assms(1,4) spsc_holds_alloc, of fresh "xs @ [y]"]
  obtain rb1 where e: "enqueue_each hdl (alloc_object nelems fresh) (xs @ [y]) =
      Some (Inr (replicate (unat nelems) 1 @ [0], rb1))"
    and h: "spsc_holds nelems rb1 xs 0"
    using assms(5) by auto
  from dequeue_each_spsc [OF assms(2,4) h, of "unat nelems" ev]
  obtain rb2 where d: "dequeue_each hdl rb1 ev (unat nelems) = Some (Inr (map (Pair 1) xs, rb2))"
    and h2: "spsc_holds nelems rb2 xs (unat nelems)"
    using assms(5) by auto
  from spsc_dequeue_empty [OF assms(2) h2, of ev] assms(5)
  have "p64_ringbuf_dequeue hdl rb2 ev 1 = Some (Inr (0, ev, None, rb2))" by simp
  with e d show ?thesis by blast
qed

lemma spsc_capacity_fifo_example:
  "\<exists>rb1 rb2 rb3.
    enqueue_each 0x1000 (alloc_object 4 fresh_block) [65, 66, 67, 68, 69] =
      Some (Inr ([1, 1, 1, 1, 0], rb1)) \<and>
    dequeue_each 0x1000 rb1 (\<lambda>_. 0) 4 = Some (Inr ([(1, 65), (1, 66), (1, 67), (1, 68)], rb2)) \<and>
    p64_ringbuf_dequeue 0x1000 rb2 (\<lambda>_. 0) 1 = Some (Inr (0, \<lambda>_. 0, None, rb3))"
proof -
  have r: "replicate 4 (1 :: 32 word) = [1, 1, 1, 1]" by (simp add: eval_nat_numeral)
  have "\<exists>rb1 rb2 rb3.
    enqueue_each 0x1000 (alloc_object 4 fresh_block) ([65, 66, 67, 68] @ [69]) =
      Some (Inr (replicate (unat (4 :: 32 word)) 1 @ [0], rb1)) \<and>
    dequeue_each 0x1000 rb1 (\<lambda>_. 0) (unat (4 :: 32 word)) =
      Some (Inr (map (Pair 1) [65, 66, 67, 68], rb2)) \<and>
    p64_ringbuf_dequeue 0x1000 rb2 (\<lambda>_. 0) 1 = Some (Inr (0, \<lambda>_. 0, None, rb3))"
    by (rule spsc_capacity_fifo) (simp_all add: PROD_FLAGS_def CONS_FLAGS_def FLAG_MASK_def)
  then show ?thesis by (simp add: r)
qed

lemma example_alloc_spsc:
  "p64_ringbuf_alloc example_flags 0x80000000 3 8 (0x1000, fresh_block) Map.empty =
     ([], 0x1000, [0x1000 \<mapsto> alloc_object 0x80000000 fresh_block])"
  by (simp add: p64_ringbuf_alloc_cases invalid_flags_def has_flag_def SUPPORTED_FLAGS_def
      example_flags_def alloc_cons_flags_def alloc_prod_flags_def)

text \<open>
  C2: on an empty ring allocated with \<open>p64_ringbuf_alloc(nelems, SPENQ|SCDEQ, esize)\<close>,
  exactly \<open>nelems\<close> consecutive one-element enqueues return 1 and the next returns 0,
  for every \<open>nelems \<ge> 1\<close>. The allocation accepts \<open>nelems = 0x80000000\<close>: its test
  \<open>nelems > MAXELEMS\<close> compares a 32-bit value with \<open>0xFFFFFFFF\<close>. On the ring it
  returns, \<open>acquire_slots\<close> computes the free slots as
  \<open>(int)(capacity + head - tail) = (int)0x80000000\<close>, a negative number, and the
  first one-element enqueue returns 0 and leaves the ring as it was.
\<close>

theorem p64_ringbuf_capacity_2p31:
  "p64_ringbuf_alloc example_flags 0x80000000 3 8 (0x1000, fresh_block) Map.empty =
     ([], 0x1000, [0x1000 \<mapsto> alloc_object 0x80000000 fresh_block]) \<and>
   p64_ringbuf_enqueue 0x1000 (alloc_object 0x80000000 fresh_block) (\<lambda>_. 65) 1 =
     Some (Inr (0, alloc_object 0x80000000 fresh_block))"
proof -
  have p: "PROD_FLAGS 0x1000 = 0" by (simp add: PROD_FLAGS_def FLAG_MASK_def)
  have "sint (capacity (prod_ep (alloc_object 0x80000000 fresh_block)) +
      cur (head (prod_ep (alloc_object 0x80000000 fresh_block))) -
      cur (head (cons_ep (alloc_object 0x80000000 fresh_block)))) = - 2147483648"
    by (simp add: alloc_object_def)
  then have "p64_ringbuf_enqueue 0x1000 (alloc_object 0x80000000 fresh_block) (\<lambda>_. 65) 1 =
     Some (Inr (0, alloc_object 0x80000000 fresh_block))"
    unfolding spsc_enqueue [OF p] by simp
  with example_alloc_spsc show ?thesis by (rule conjI)
qed

theorem p64_ringbuf_capacity_2p31_witness:
  "fst (snd (p64_ringbuf_alloc example_flags 0x80000000 3 8 (0x1000, fresh_block) Map.empty))
     = 0x1000 \<and>
   (\<exists>rb. p64_ringbuf_enqueue 0x1000 (alloc_object 0x80000000 fresh_block) (\<lambda>_. 65) 1 =
     Some (Inr (0, rb)))"
proof
  from p64_ringbuf_capacity_2p31
  have "p64_ringbuf_alloc example_flags 0x80000000 3 8 (0x1000, fresh_block) Map.empty =
     ([], 0x1000, [0x1000 \<mapsto> alloc_object 0x80000000 fresh_block])"
    by (rule conjunct1)
  then show "fst (snd (p64_ringbuf_alloc example_flags 0x80000000 3 8 (0x1000, fresh_block)
      Map.empty)) = 0x1000"
    by (simp only: fst_conv snd_conv)
  from p64_ringbuf_capacity_2p31
  have "p64_ringbuf_enqueue 0x1000 (alloc_object 0x80000000 fresh_block) (\<lambda>_. 65) 1 =
     Some (Inr (0, alloc_object 0x80000000 fresh_block))"
    by (rule conjunct2)
  then show "\<exists>rb. p64_ringbuf_enqueue 0x1000 (alloc_object 0x80000000 fresh_block) (\<lambda>_. 65) 1 =
     Some (Inr (0, rb))"
    by (rule exI)
qed

end
